theory Spec2Isabelle
  imports Main
begin

section \<open>Arrays\<close>

text \<open>
  The function under study is \<^verbatim>\<open>sparsify_mask\<close> of
  \<^verbatim>\<open>docs/pallas/tpu/sparse.ipynb\<close>. It works on two-dimensional JAX arrays.
  An array carries its element type, its shape and its elements in row-major order.
  Two element types are modelled: \<open>Bool\<close>, the one the docstring asks for
  (\<^verbatim>\<open>mask: A boolean array of shape [M, N]\<close>), and \<open>Int32\<close>, the one the notebook
  calls the function with (\<^verbatim>\<open>jnp.ones((M, N), dtype=jnp.int32)\<close>). A boolean element
  is stored as 0 (False) or 1 (True).
\<close>

datatype dtype = Bool | Int32

datatype error = ZeroDivisionError | ValueError

record array2 =
  dtype :: dtype
  nrows :: nat
  ncols :: nat
  elems :: "int list list"

record array3 =
  dtype3 :: dtype
  shape3 :: "nat \<times> nat \<times> nat"
  elems3 :: "int list list list"

text \<open>An array is valid when its dimensions fit a 32-bit index, its element lists agree
  with its shape and every element is a value of its element type.\<close>

definition valid_elem :: "dtype \<Rightarrow> int \<Rightarrow> bool" where
  "valid_elem dt v = (case dt of Bool \<Rightarrow> v = 0 \<or> v = 1
                                 | Int32 \<Rightarrow> - (2 ^ 31) \<le> v \<and> v < 2 ^ 31)"

definition valid_array :: "array2 \<Rightarrow> bool" where
  "valid_array a = (nrows a < 2 ^ 31 \<and> ncols a < 2 ^ 31 \<and> length (elems a) = nrows a
     \<and> list_all (\<lambda>row. length row = ncols a \<and> list_all (valid_elem (dtype a)) row) (elems a))"

text \<open>\<^verbatim>\<open>jnp.zeros((r, c), dtype=dt)\<close> and \<^verbatim>\<open>jnp.zeros_like\<close>.\<close>

definition zeros :: "nat \<Rightarrow> nat \<Rightarrow> dtype \<Rightarrow> array2" where
  "zeros r c dt = \<lparr>dtype = dt, nrows = r, ncols = c, elems = replicate r (replicate c 0)\<rparr>"

definition zeros_like :: "array2 \<Rightarrow> array2" where
  "zeros_like a = zeros (nrows a) (ncols a) (dtype a)"

text \<open>
  The conversion of a Python integer (or of the boolean \<^verbatim>\<open>is_nonzero\<close>) to the element
  type of the array it is stored into. A boolean array keeps only whether the value is
  non-zero. Every integer the function stores is a tile index or a count of registered
  blocks, below the number of elements of the mask, so for \<open>Int32\<close> the conversion is
  taken in the range where it keeps the value.
\<close>

definition astype :: "dtype \<Rightarrow> int \<Rightarrow> int" where
  "astype dt v = (case dt of Bool \<Rightarrow> (if v = 0 then 0 else 1) | Int32 \<Rightarrow> v)"

text \<open>
  \<^verbatim>\<open>a.at[i, j].set(v)\<close>: a new array with the element at \<open>(i, j)\<close> replaced. JAX drops
  an update whose index is out of bounds, and the result keeps the element type of \<open>a\<close>.
  (Arrays with an axis of length zero are not indexed in what follows: every theorem
  about the grids is about a grid with at least one tile.)
\<close>

definition at_set :: "array2 \<Rightarrow> nat \<Rightarrow> nat \<Rightarrow> int \<Rightarrow> array2" where
  "at_set a i j v =
     (if i < nrows a \<and> j < ncols a
      then a\<lparr>elems := (elems a)[i := (elems a ! i)[j := astype (dtype a) v]]\<rparr>
      else a)"

text \<open>Reading the element at \<open>(i, j)\<close>; used only within the bounds of the array.\<close>

definition at_get :: "array2 \<Rightarrow> nat \<Rightarrow> nat \<Rightarrow> int" where
  "at_get a i j = elems a ! i ! j"

text \<open>
  \<^verbatim>\<open>a[r0:r1, c0:c1]\<close> for non-negative bounds: Python clips both bounds of a slice to
  the length of the axis, so a slice that starts at or beyond the end is empty.
\<close>

definition slice2 :: "array2 \<Rightarrow> nat \<Rightarrow> nat \<Rightarrow> nat \<Rightarrow> nat \<Rightarrow> array2" where
  "slice2 a r0 r1 c0 c1 =
     \<lparr>dtype = dtype a,
      nrows = min r1 (nrows a) - min r0 (nrows a),
      ncols = min c1 (ncols a) - min c0 (ncols a),
      elems = map (\<lambda>row. take (c1 - c0) (drop c0 row)) (take (r1 - r0) (drop r0 (elems a)))\<rparr>"

text \<open>\<^verbatim>\<open>jnp.any(a)\<close>: some element is non-zero; False on an empty array.\<close>

definition jnp_any :: "array2 \<Rightarrow> bool" where
  "jnp_any a = list_ex (list_ex (\<lambda>v. v \<noteq> 0)) (elems a)"

text \<open>
  \<^verbatim>\<open>jnp.stack(arrays)\<close> raises ValueError on an empty list and on arrays of different
  shapes; otherwise the arrays become the slices of a new array along a new first axis.
\<close>

definition stack :: "array2 list \<Rightarrow> error + array3" where
  "stack arrays =
     (case arrays of
        [] \<Rightarrow> Inl ValueError
      | a # _ \<Rightarrow>
          if list_all (\<lambda>b. nrows b = nrows a \<and> ncols b = ncols a) arrays
          then Inr \<lparr>dtype3 = dtype a, shape3 = (length arrays, nrows a, ncols a),
                    elems3 = map elems arrays\<rparr>
          else Inl ValueError)"

section \<open>The printed form of an array\<close>

text \<open>
  \<^verbatim>\<open>str(mask_block)\<close> is NumPy's printed form of the block under NumPy's default print
  options: an array of more than \<open>threshold = 1000\<close> elements is summarised, every axis
  longer than \<open>2 * edgeitems = 6\<close> showing its first three and last three entries around
  an ellipsis. The model prints the same entries in the same arrangement. It leaves out
  the padding of the entries to a common width and the wrapping of long lines, which are
  functions of the printed entries and so do not change which blocks print alike.
\<close>

definition threshold :: nat where
  "threshold = 1000"

definition edgeitems :: nat where
  "edgeitems = 3"

fun str_nat :: "nat \<Rightarrow> string" where
  "str_nat n = (if n < 10 then [char_of (48 + n)]
                else str_nat (n div 10) @ [char_of (48 + n mod 10)])"

declare str_nat.simps [simp del]

definition str_int :: "int \<Rightarrow> string" where
  "str_int v = (if v < 0 then CHR ''-'' # str_nat (nat (- v)) else str_nat (nat v))"

definition str_elem :: "dtype \<Rightarrow> int \<Rightarrow> string" where
  "str_elem dt v = (case dt of Bool \<Rightarrow> (if v = 0 then ''False'' else ''True'')
                              | Int32 \<Rightarrow> str_int v)"

definition summarize :: "bool \<Rightarrow> 'a \<Rightarrow> 'a list \<Rightarrow> 'a list" where
  "summarize summary dots xs =
     (if summary \<and> 2 * edgeitems < length xs
      then take edgeitems xs @ [dots] @ drop (length xs - edgeitems) xs
      else xs)"

fun join :: "string \<Rightarrow> string list \<Rightarrow> string" where
  "join sep [] = []"
| "join sep [x] = x"
| "join sep (x # y # ys) = x @ sep @ join sep (y # ys)"

definition str_row :: "bool \<Rightarrow> dtype \<Rightarrow> int list \<Rightarrow> string" where
  "str_row summary dt row =
     ''['' @ join '' '' (summarize summary ''...'' (map (str_elem dt) row)) @ '']''"

definition str_array :: "array2 \<Rightarrow> string" where
  "str_array a =
     (let summary = (threshold < nrows a * ncols a)
      in ''['' @ join [CHR 0x0A, CHR '' '']
                   (summarize summary ''...'' (map (str_row summary (dtype a)) (elems a)))
           @ '']'')"

section \<open>sparsify\_mask\<close>

text \<open>\<^verbatim>\<open>list.index(x)\<close>: the first position of \<open>x\<close>; \<open>None\<close> stands for the ValueError
  that the function catches.\<close>

fun index :: "'a list \<Rightarrow> 'a \<Rightarrow> nat option" where
  "index [] x = None"
| "index (y # ys) x = (if y = x then Some 0 else map_option Suc (index ys x))"

text \<open>The local variables of \<^verbatim>\<open>sparsify_mask\<close> that the loops read and write.\<close>

record state =
  block_mask :: array2
  mask_types_finder :: "string list"
  mask_data :: "array2 list"
  next_mask_type_idx :: int
  prefetch_mask :: array2
  next_i :: int
  next_j :: int
  prefetch_i :: array2
  prefetch_j :: array2

text \<open>The block of the mask at tile coordinate \<open>(i, j)\<close>:
  \<^verbatim>\<open>mask[i * bm :(i + 1) * bm, j * bn :(j + 1) * bn]\<close>.\<close>

definition mask_block :: "array2 \<Rightarrow> nat \<Rightarrow> nat \<Rightarrow> nat \<times> nat \<Rightarrow> array2" where
  "mask_block m bm bn c =
     slice2 m (fst c * bm) ((fst c + 1) * bm) (snd c * bn) ((snd c + 1) * bn)"

text \<open>
  The \<^verbatim>\<open>try\<close>/\<^verbatim>\<open>except ValueError\<close> of the loop body: the index of the block's printed
  form in \<^verbatim>\<open>mask_types_finder\<close>, the block being registered first when its printed form
  is not there yet.
\<close>

definition register :: "array2 \<Rightarrow> state \<Rightarrow> nat \<times> state" where
  "register blk st =
     (case index (mask_types_finder st) (str_array blk) of
        Some type_index \<Rightarrow> (type_index, st)
      | None \<Rightarrow>
          (length (mask_types_finder st),
           st\<lparr>mask_types_finder := mask_types_finder st @ [str_array blk],
              mask_data := mask_data st @ [blk]\<rparr>))"

text \<open>The body of the inner loop at tile coordinate \<open>c = (i, j)\<close>. The assignment
  \<^verbatim>\<open>type_index = -1\<close> of the \<^verbatim>\<open>else\<close> branch is never read and is left out.\<close>

definition loop_body :: "array2 \<Rightarrow> nat \<Rightarrow> nat \<Rightarrow> nat \<times> nat \<Rightarrow> state \<Rightarrow> state" where
  "loop_body m bm bn c st =
     (let blk = mask_block m bm bn c;
          is_nonzero = jnp_any blk;
          st1 = (if is_nonzero
                 then (let (type_index, st0) = register blk st
                       in st0\<lparr>next_mask_type_idx := int type_index,
                               next_i := int (fst c), next_j := int (snd c)\<rparr>)
                 else st)
      in st1\<lparr>block_mask := at_set (block_mask st1) (fst c) (snd c) (if is_nonzero then 1 else 0),
             prefetch_mask := at_set (prefetch_mask st1) (fst c) (snd c) (next_mask_type_idx st1),
             prefetch_i := at_set (prefetch_i st1) (fst c) (snd c) (next_i st1),
             prefetch_j := at_set (prefetch_j st1) (fst c) (snd c) (next_j st1)\<rparr>)"

text \<open>\<^verbatim>\<open>range(n, -1, -1)\<close>: \<open>n, n - 1, ..., 0\<close>.\<close>

definition range_down :: "nat \<Rightarrow> nat list" where
  "range_down n = rev [0..<n + 1]"

text \<open>The state before the loops, for a grid of \<open>R\<close> by \<open>C\<close> tiles.\<close>

definition init_state :: "dtype \<Rightarrow> nat \<Rightarrow> nat \<Rightarrow> state" where
  "init_state dt R C =
     (let block_mask0 = zeros R C dt
      in \<lparr>block_mask = block_mask0,
          mask_types_finder = [],
          mask_data = [],
          next_mask_type_idx = 0,
          prefetch_mask = zeros_like block_mask0,
          next_i = int R - 1,
          next_j = int C - 1,
          prefetch_i = zeros_like block_mask0,
          prefetch_j = zeros_like block_mask0\<rparr>)"

text \<open>The two nested loops.\<close>

definition loops :: "array2 \<Rightarrow> nat \<Rightarrow> nat \<Rightarrow> state \<Rightarrow> state" where
  "loops m bm bn st =
     fold (\<lambda>i. fold (\<lambda>j. loop_body m bm bn (i, j)) (range_down (ncols m div bn)))
          (range_down (nrows m div bm)) st"

text \<open>
  The whole function, the mask being \<open>m\<close>. A block dimension of 0 makes \<^verbatim>\<open>M // bm\<close> raise ZeroDivisionError.
  The result is the tuple \<^verbatim>\<open>(block_mask, prefetch_mask, prefetch_i, prefetch_j,
  jnp.stack(mask_data))\<close>.
\<close>

definition sparsify_mask ::
  "array2 \<Rightarrow> nat \<times> nat \<Rightarrow> error + (array2 \<times> array2 \<times> array2 \<times> array2 \<times> array3)" where
  "sparsify_mask m block_shape =
     (let M = nrows m; N = ncols m;
          bm = fst block_shape; bn = snd block_shape
      in if bm = 0 \<or> bn = 0 then Inl ZeroDivisionError
         else (let st = loops m bm bn (init_state (dtype m) (M div bm) (N div bn))
               in case stack (mask_data st) of
                    Inl e \<Rightarrow> Inl e
                  | Inr data \<Rightarrow>
                      Inr (block_mask st, prefetch_mask st, prefetch_i st, prefetch_j st, data)))"

section \<open>Notions used in the statements\<close>

text \<open>A tile is active when its block has a non-zero element.\<close>

definition active :: "array2 \<Rightarrow> nat \<Rightarrow> nat \<Rightarrow> nat \<times> nat \<Rightarrow> bool" where
  "active m bm bn c = jnp_any (mask_block m bm bn c)"

text \<open>The tile coordinates in the order in which the two loops visit them.\<close>

definition scan :: "nat \<Rightarrow> nat \<Rightarrow> (nat \<times> nat) list" where
  "scan R C = concat (map (\<lambda>i. map (Pair i) (range_down C)) (range_down R))"

text \<open>The coordinates of a grid of \<open>R\<close> by \<open>C\<close> tiles in forward (row-major) order, and
  those that follow a coordinate in that order.\<close>

definition tiles :: "nat \<Rightarrow> nat \<Rightarrow> (nat \<times> nat) list" where
  "tiles R C = concat (map (\<lambda>i. map (Pair i) [0..<C]) [0..<R])"

definition tiles_after :: "nat \<Rightarrow> nat \<Rightarrow> nat \<times> nat \<Rightarrow> (nat \<times> nat) list" where
  "tiles_after R C c =
     map (Pair (fst c)) [Suc (snd c)..<C] @ concat (map (\<lambda>i. map (Pair i) [0..<C]) [Suc (fst c)..<R])"

text \<open>The number of tile rows and tile columns: \<^verbatim>\<open>M // bm\<close> and \<^verbatim>\<open>N // bn\<close>.\<close>

definition tile_rows :: "array2 \<Rightarrow> nat \<times> nat \<Rightarrow> nat" where
  "tile_rows m block_shape = nrows m div fst block_shape"

definition tile_cols :: "array2 \<Rightarrow> nat \<times> nat \<Rightarrow> nat" where
  "tile_cols m block_shape = ncols m div snd block_shape"

text \<open>
  A well-formed input: a valid mask with at least one row and one column, and a block
  shape with positive dimensions that divide the dimensions of the mask.
\<close>

definition well_formed :: "array2 \<Rightarrow> nat \<times> nat \<Rightarrow> bool" where
  "well_formed m block_shape =
     (valid_array m \<and> 0 < nrows m \<and> 0 < ncols m
      \<and> 0 < fst block_shape \<and> 0 < snd block_shape
      \<and> nrows m mod fst block_shape = 0 \<and> ncols m mod snd block_shape = 0)"

text \<open>
  The part of the mask beyond the last whole tile holds only zeros; and the mask cut down
  to its whole tiles, \<^verbatim>\<open>mask[:(M // bm) * bm, :(N // bn) * bn]\<close>.
\<close>

definition leftover_zero :: "array2 \<Rightarrow> nat \<Rightarrow> nat \<Rightarrow> bool" where
  "leftover_zero m bm bn =
     (\<not> jnp_any (slice2 m (nrows m div bm * bm) (nrows m) 0 (ncols m))
      \<and> \<not> jnp_any (slice2 m 0 (nrows m) (ncols m div bn * bn) (ncols m)))"

definition truncated :: "array2 \<Rightarrow> nat \<Rightarrow> nat \<Rightarrow> array2" where
  "truncated m bm bn = slice2 m 0 (nrows m div bm * bm) 0 (ncols m div bn * bn)"

text \<open>
  The algorithm restricted to the tile coordinates of the grid: the row index runs over
  \<^verbatim>\<open>range(M // bm - 1, -1, -1)\<close> and the column index over \<^verbatim>\<open>range(N // bn - 1, -1, -1)\<close>;
  everything else is as in \<open>sparsify_mask\<close>.
\<close>

definition range_below :: "nat \<Rightarrow> nat list" where
  "range_below n = rev [0..<n]"

definition loops_in_range :: "array2 \<Rightarrow> nat \<Rightarrow> nat \<Rightarrow> state \<Rightarrow> state" where
  "loops_in_range m bm bn st =
     fold (\<lambda>i. fold (\<lambda>j. loop_body m bm bn (i, j)) (range_below (ncols m div bn)))
          (range_below (nrows m div bm)) st"

definition sparsify_mask_in_range ::
  "array2 \<Rightarrow> nat \<times> nat \<Rightarrow> error + (array2 \<times> array2 \<times> array2 \<times> array2 \<times> array3)" where
  "sparsify_mask_in_range m block_shape =
     (let M = nrows m; N = ncols m;
          bm = fst block_shape; bn = snd block_shape
      in if bm = 0 \<or> bn = 0 then Inl ZeroDivisionError
         else (let st = loops_in_range m bm bn (init_state (dtype m) (M div bm) (N div bn))
               in case stack (mask_data st) of
                    Inl e \<Rightarrow> Inl e
                  | Inr data \<Rightarrow>
                      Inr (block_mask st, prefetch_mask st, prefetch_i st, prefetch_j st, data)))"

text \<open>The four grids of a state have the shape of a grid of \<open>R\<close> by \<open>C\<close> tiles.\<close>

definition shaped :: "nat \<Rightarrow> nat \<Rightarrow> array2 \<Rightarrow> bool" where
  "shaped R C a = (nrows a = R \<and> ncols a = C \<and> length (elems a) = R
                   \<and> list_all (\<lambda>row. length row = C) (elems a))"

definition grids_shaped :: "nat \<Rightarrow> nat \<Rightarrow> state \<Rightarrow> bool" where
  "grids_shaped R C st = (shaped R C (block_mask st) \<and> shaped R C (prefetch_mask st)
                          \<and> shaped R C (prefetch_i st) \<and> shaped R C (prefetch_j st))"

text \<open>The two lists of registered blocks agree: \<open>mask_types_finder\<close> holds the printed
  forms of the blocks of \<open>mask_data\<close>, and no printed form twice.\<close>

definition finder_ok :: "state \<Rightarrow> bool" where
  "finder_ok st = (mask_types_finder st = map str_array (mask_data st)
                   \<and> distinct (mask_types_finder st))"

text \<open>A boolean grid: the element type is \<open>Bool\<close> and every element is False (0) or
  True (1).\<close>

definition bool_valued :: "array2 \<Rightarrow> bool" where
  "bool_valued a = (dtype a = Bool \<and> list_all (list_all (\<lambda>v. v = 0 \<or> v = 1)) (elems a))"

text \<open>
  The first active tile among a tile and the tiles that follow it in forward order. When
  the loops write the grids at a tile, this is the tile whose index and coordinates they
  carry in \<^verbatim>\<open>next_mask_type_idx\<close>, \<^verbatim>\<open>next_i\<close> and \<^verbatim>\<open>next_j\<close>; when there is none, those
  variables still hold their initial values.
\<close>

definition next_tile :: "array2 \<Rightarrow> nat \<times> nat \<Rightarrow> nat \<times> nat \<Rightarrow> (nat \<times> nat) option" where
  "next_tile m block_shape c =
     List.find (active m (fst block_shape) (snd block_shape))
       (c # tiles_after (tile_rows m block_shape) (tile_cols m block_shape) c)"

text \<open>\<^verbatim>\<open>mask_data[k]\<close>: block \<open>k\<close> of the stacked array.\<close>

definition block_at :: "array3 \<Rightarrow> nat \<Rightarrow> array2" where
  "block_at a k = \<lparr>dtype = dtype3 a, nrows = fst (snd (shape3 a)), ncols = snd (snd (shape3 a)),
                    elems = elems3 a ! k\<rparr>"

text \<open>The printed forms of the blocks of \<^verbatim>\<open>mask_data\<close>, in order.\<close>

definition printed :: "array3 \<Rightarrow> string list" where
  "printed md = map (\<lambda>k. str_array (block_at md k)) [0..<length (elems3 md)]"

section \<open>Example inputs\<close>

text \<open>The 4 by 4 mask of the specification's scenario, with blocks of 2 by 2: the tiles
  \<open>(0, 0)\<close> and \<open>(1, 1)\<close> are active.\<close>

definition m1 :: array2 where
  "m1 = \<lparr>dtype = Int32, nrows = 4, ncols = 4,
          elems = [[1, 0, 0, 0], [0, 0, 0, 0], [0, 0, 1, 1], [0, 0, 1, 1]]\<rparr>"

text \<open>A boolean mask of one row of three tiles of shape 1 by 2, with three different
  active blocks.\<close>

definition m_bool :: array2 where
  "m_bool = \<lparr>dtype = Bool, nrows = 1, ncols = 6, elems = [[1, 0, 0, 1, 1, 1]]\<rparr>"

text \<open>A boolean mask of one row of four tiles of shape 1 by 2: tile \<open>(0, 1)\<close> is
  inactive, and the other three have different blocks.\<close>

definition m_bool4 :: array2 where
  "m_bool4 = \<lparr>dtype = Bool, nrows = 1, ncols = 8, elems = [[1, 0, 0, 0, 0, 1, 1, 1]]\<rparr>"

text \<open>A boolean mask of three tiles of shape 1 by 1 in one column, of which only the
  first is active.\<close>

definition m_col :: array2 where
  "m_col = \<lparr>dtype = Bool, nrows = 3, ncols = 1, elems = [[1], [0], [0]]\<rparr>"

text \<open>An integer mask of 2 by 2 tiles of shape 2 by 2, of which only tile \<open>(0, 0)\<close> is
  active.\<close>

definition m_corner :: array2 where
  "m_corner = \<lparr>dtype = Int32, nrows = 4, ncols = 4,
               elems = [[1, 0, 0, 0], [0, 0, 0, 0], [0, 0, 0, 0], [0, 0, 0, 0]]\<rparr>"

text \<open>An integer mask of one row of two tiles of shape 1 by 1001: each block holds a
  single 1, at position 500 in the first and at position 400 in the second.\<close>

definition wide_a :: "int list" where
  "wide_a = replicate 500 0 @ [1] @ replicate 500 0"

definition wide_b :: "int list" where
  "wide_b = replicate 400 0 @ [1] @ replicate 600 0"

definition m_wide :: array2 where
  "m_wide = \<lparr>dtype = Int32, nrows = 1, ncols = 2002, elems = [wide_a @ wide_b]\<rparr>"

text \<open>A mask of 3 rows with blocks of 2 by 2: the third row is beyond the last whole
  tile, and it is zero.\<close>

definition m3 :: array2 where
  "m3 = \<lparr>dtype = Int32, nrows = 3, ncols = 2, elems = [[1, 1], [1, 1], [0, 0]]\<rparr>"

section \<open>The loops as one pass over the scan order\<close>

lemma fold_concat_map:
  "fold f (concat (map g xs)) st = fold (\<lambda>x. fold f (g x)) xs st"
  by (induction xs arbitrary: st) simp_all

lemma loops_scan:
  "loops m bm bn st = fold (loop_body m bm bn) (scan (nrows m div bm) (ncols m div bn)) st"
  by (simp add: loops_def scan_def fold_concat_map fold_map comp_def)

lemma loops_in_range_tiles:
  "loops_in_range m bm bn st = fold (loop_body m bm bn) (rev (tiles (nrows m div bm) (ncols m div bn))) st"
  by (simp add: loops_in_range_def tiles_def range_below_def rev_concat rev_map fold_concat_map fold_map comp_def)

lemma scan_tiles: "scan R C = rev (tiles (Suc R) (Suc C))"
  by (simp add: scan_def tiles_def range_down_def rev_concat rev_map comp_def del: upt_Suc)

lemma filter_tiles:
  "filter (\<lambda>c. fst c < R \<and> snd c < C) (tiles (Suc R) (Suc C)) = tiles R C"
proof -
  have row: "filter (\<lambda>c. fst c < R \<and> snd c < C) (map (Pair i) [0..<Suc C]) =
      (if i < R then map (Pair i) [0..<C] else [])" for i
    by (simp add: filter_map comp_def)
  have "filter (\<lambda>c. fst c < R \<and> snd c < C) (tiles (Suc R) (Suc C)) =
      concat (map (\<lambda>i. if i < R then map (Pair i) [0..<C] else []) ([0..<R] @ [R]))"
    unfolding tiles_def filter_concat map_map comp_def row by simp
  also have "\<dots> = concat (map (\<lambda>i. if i < R then map (Pair i) [0..<C] else []) [0..<R])"
    by simp
  also have "\<dots> = tiles R C"
    unfolding tiles_def by (rule arg_cong [where f = concat]) simp
  finally show ?thesis .
qed


subsection \<open>The loop body\<close>

lemma loop_body_inactive:
  "\<not> active m bm bn c \<Longrightarrow> loop_body m bm bn c st =
     st\<lparr>block_mask := at_set (block_mask st) (fst c) (snd c) 0,
        prefetch_mask := at_set (prefetch_mask st) (fst c) (snd c) (next_mask_type_idx st),
        prefetch_i := at_set (prefetch_i st) (fst c) (snd c) (next_i st),
        prefetch_j := at_set (prefetch_j st) (fst c) (snd c) (next_j st)\<rparr>"
  by (simp add: loop_body_def active_def Let_def)

lemma loop_body_active:
  "active m bm bn c \<Longrightarrow> loop_body m bm bn c st =
     (snd (register (mask_block m bm bn c) st))
       \<lparr>next_mask_type_idx := int (fst (register (mask_block m bm bn c) st)),
        next_i := int (fst c), next_j := int (snd c),
        block_mask := at_set (block_mask st) (fst c) (snd c) 1,
        prefetch_mask := at_set (prefetch_mask st) (fst c) (snd c)
                           (int (fst (register (mask_block m bm bn c) st))),
        prefetch_i := at_set (prefetch_i st) (fst c) (snd c) (int (fst c)),
        prefetch_j := at_set (prefetch_j st) (fst c) (snd c) (int (snd c))\<rparr>"
  by (simp add: loop_body_def active_def Let_def register_def split: option.splits prod.splits)

lemma at_set_outside: "\<not> (i < nrows a \<and> j < ncols a) \<Longrightarrow> at_set a i j v = a"
  by (auto simp: at_set_def)

lemma shaped_at_set: "shaped R C a \<Longrightarrow> shaped R C (at_set a i j v)"
  by (auto simp: shaped_def at_set_def list_all_iff dest!: set_update_subset_insert [THEN subsetD])

lemma register_grids:
  "block_mask (snd (register b st)) = block_mask st"
  "prefetch_mask (snd (register b st)) = prefetch_mask st"
  "prefetch_i (snd (register b st)) = prefetch_i st"
  "prefetch_j (snd (register b st)) = prefetch_j st"
  by (simp_all add: register_def split: option.splits)

lemma grids_shaped_loop_body:
  "grids_shaped R C st \<Longrightarrow> grids_shaped R C (loop_body m bm bn c st)"
  by (cases "active m bm bn c")
     (simp_all add: loop_body_active loop_body_inactive grids_shaped_def shaped_at_set)

lemma grids_shaped_fold:
  "grids_shaped R C st \<Longrightarrow> grids_shaped R C (fold (loop_body m bm bn) cs st)"
  by (induction cs arbitrary: st) (simp_all add: grids_shaped_loop_body)

lemma grids_shaped_init: "grids_shaped R C (init_state dt R C)"
  by (simp add: grids_shaped_def init_state_def Let_def zeros_like_def zeros_def shaped_def list_all_iff)

lemma loop_body_outside:
  assumes "\<not> active m bm bn c" and "\<not> (fst c < R \<and> snd c < C)" and "grids_shaped R C st"
  shows "loop_body m bm bn c st = st"
proof -
  have "at_set a (fst c) (snd c) v = a" if "shaped R C a" for a v
    using that assms(2) by (intro at_set_outside) (simp add: shaped_def)
  then show ?thesis
    using assms(1,3) by (simp add: loop_body_inactive grids_shaped_def)
qed

lemma fold_skip_outside:
  assumes "\<forall>c \<in> set cs. \<not> (fst c < R \<and> snd c < C) \<longrightarrow> \<not> active m bm bn c"
    and "grids_shaped R C st"
  shows "fold (loop_body m bm bn) cs st =
         fold (loop_body m bm bn) (filter (\<lambda>c. fst c < R \<and> snd c < C) cs) st"
  using assms
proof (induction cs arbitrary: st)
  case Nil
  then show ?case by simp
next
  case (Cons c cs)
  show ?case
  proof (cases "fst c < R \<and> snd c < C")
    case True
    with Cons show ?thesis by (simp add: grids_shaped_loop_body)
  next
    case False
    with Cons.prems have "loop_body m bm bn c st = st"
      by (intro loop_body_outside) auto
    with False Cons show ?thesis by simp
  qed
qed

text \<open>Both loops run one index beyond the grid; where the blocks there are inactive,
  the pass over the scan order is the pass over the tiles of the grid in reverse.\<close>

lemma loops_eq_loops_in_range:
  assumes "\<forall>c. \<not> (fst c < nrows m div bm \<and> snd c < ncols m div bn) \<longrightarrow> \<not> active m bm bn c"
    and "grids_shaped (nrows m div bm) (ncols m div bn) st"
  shows "loops m bm bn st = loops_in_range m bm bn st"
proof -
  let ?R = "nrows m div bm" and ?C = "ncols m div bn"
  have "loops m bm bn st = fold (loop_body m bm bn)
      (filter (\<lambda>c. fst c < ?R \<and> snd c < ?C) (rev (tiles (Suc ?R) (Suc ?C)))) st"
    unfolding loops_scan scan_tiles using assms by (intro fold_skip_outside) auto
  then show ?thesis
    by (simp add: loops_in_range_tiles filter_tiles flip: rev_filter)
qed


subsection \<open>Slices\<close>

lemma set_take_drop:
  "set (take n (drop k xs)) = {xs ! i | i. k \<le> i \<and> i < k + n \<and> i < length xs}"
proof (rule set_eqI, rule iffI)
  fix x assume "x \<in> set (take n (drop k xs))"
  then obtain i where i: "i < length (take n (drop k xs))" "take n (drop k xs) ! i = x"
    by (auto simp: in_set_conv_nth)
  then have "x = xs ! (k + i)" "k \<le> k + i" "k + i < k + n" "k + i < length xs"
    by auto
  then show "x \<in> {xs ! i | i. k \<le> i \<and> i < k + n \<and> i < length xs}" by blast
next
  fix x assume "x \<in> {xs ! i | i. k \<le> i \<and> i < k + n \<and> i < length xs}"
  then obtain i where i: "x = xs ! i" "k \<le> i" "i < k + n" "i < length xs" by blast
  then have "i - k < length (take n (drop k xs))" "take n (drop k xs) ! (i - k) = x"
    by auto
  then show "x \<in> set (take n (drop k xs))"
    by (metis nth_mem)
qed

text \<open>A slice has a non-zero element exactly when the array has one at a position that
  the slice covers.\<close>

lemma jnp_any_slice2_iff:
  "jnp_any (slice2 a r0 r1 c0 c1) \<longleftrightarrow>
     (\<exists>r k. r0 \<le> r \<and> r < r1 \<and> r < length (elems a) \<and>
            c0 \<le> k \<and> k < c1 \<and> k < length (elems a ! r) \<and> elems a ! r ! k \<noteq> 0)"
proof -
  have "jnp_any (slice2 a r0 r1 c0 c1) \<longleftrightarrow>
      (\<exists>row \<in> set (take (r1 - r0) (drop r0 (elems a))). \<exists>v \<in> set (take (c1 - c0) (drop c0 row)). v \<noteq> 0)"
    by (simp add: jnp_any_def slice2_def list_ex_iff)
  also have "\<dots> \<longleftrightarrow> (\<exists>r. r0 \<le> r \<and> r < r0 + (r1 - r0) \<and> r < length (elems a) \<and>
      (\<exists>k. c0 \<le> k \<and> k < c0 + (c1 - c0) \<and> k < length (elems a ! r) \<and> elems a ! r ! k \<noteq> 0))"
    unfolding set_take_drop by blast
  also have "\<dots> \<longleftrightarrow> (\<exists>r k. r0 \<le> r \<and> r < r1 \<and> r < length (elems a) \<and>
            c0 \<le> k \<and> k < c1 \<and> k < length (elems a ! r) \<and> elems a ! r ! k \<noteq> 0)"
    by (intro iffI; elim exE conjE; intro exI conjI; (assumption | simp))
  finally show ?thesis .
qed

subsection \<open>Blocks beyond the grid\<close>

lemma valid_array_lengths:
  "valid_array a \<Longrightarrow> length (elems a) = nrows a"
  "valid_array a \<Longrightarrow> r < nrows a \<Longrightarrow> length (elems a ! r) = ncols a"
  by (auto simp: valid_array_def list_all_iff)

lemma active_iff:
  "active m bm bn c \<longleftrightarrow>
     (\<exists>r k. fst c * bm \<le> r \<and> r < (fst c + 1) * bm \<and> r < length (elems m) \<and>
            snd c * bn \<le> k \<and> k < (snd c + 1) * bn \<and> k < length (elems m ! r) \<and>
            elems m ! r ! k \<noteq> 0)"
  unfolding active_def mask_block_def by (rule jnp_any_slice2_iff)

lemma outside_inactive:
  assumes "leftover_zero m bm bn"
    and "length (elems m) = nrows m"
    and "\<And>r. r < nrows m \<Longrightarrow> length (elems m ! r) = ncols m"
    and "\<not> (fst c < nrows m div bm \<and> snd c < ncols m div bn)"
  shows "\<not> active m bm bn c"
proof
  assume "active m bm bn c"
  then obtain r k where rk: "fst c * bm \<le> r" "r < length (elems m)"
      "snd c * bn \<le> k" "k < length (elems m ! r)" "elems m ! r ! k \<noteq> 0"
    unfolding active_iff by blast
  have len: "r < nrows m" "k < ncols m"
    using rk assms(2,3) by auto
  from assms(4) consider "nrows m div bm \<le> fst c" | "ncols m div bn \<le> snd c"
    by linarith
  then show False
  proof cases
    case 1
    then have "nrows m div bm * bm \<le> r"
      using rk(1) by (meson mult_le_mono1 order_trans)
    then have "jnp_any (slice2 m (nrows m div bm * bm) (nrows m) 0 (ncols m))"
      unfolding jnp_any_slice2_iff using rk len by blast
    then show False using assms(1) by (simp add: leftover_zero_def)
  next
    case 2
    then have "ncols m div bn * bn \<le> k"
      using rk(3) by (meson mult_le_mono1 order_trans)
    then have "jnp_any (slice2 m 0 (nrows m) (ncols m div bn * bn) (ncols m))"
      unfolding jnp_any_slice2_iff using rk len by blast
    then show False using assms(1) by (simp add: leftover_zero_def)
  qed
qed

lemma well_formed_leftover_zero:
  "well_formed m (bm, bn) \<Longrightarrow> leftover_zero m bm bn"
  by (auto simp: well_formed_def leftover_zero_def jnp_any_slice2_iff valid_array_lengths)

lemma well_formed_outside_inactive:
  assumes "well_formed m (bm, bn)"
    and "\<not> (fst c < nrows m div bm \<and> snd c < ncols m div bn)"
  shows "\<not> active m bm bn c"
  using assms(1) well_formed_leftover_zero [OF assms(1)] assms(2)
  by (intro outside_inactive) (auto simp: well_formed_def valid_array_lengths)

lemma well_formed_loops:
  assumes "well_formed m (bm, bn)"
  shows "loops m bm bn (init_state dt (nrows m div bm) (ncols m div bn)) =
         loops_in_range m bm bn (init_state dt (nrows m div bm) (ncols m div bn))"
  using well_formed_outside_inactive [OF assms]
  by (intro loops_eq_loops_in_range grids_shaped_init) blast

text \<open>
  C8. The loops run the row index from \<open>M // bm\<close> and the column index from \<open>N // bn\<close>
  down to 0, one index beyond the grid on each axis. For every well-formed input the
  result is the result of the algorithm restricted to the coordinates of the grid:
  a block at a coordinate beyond the grid has no element, so it is inactive, registers
  nothing and leaves the carried next-active state alone, and the writes at that
  coordinate are dropped, so the loop body there leaves the whole state as it is.
\<close>

theorem sparsify_mask_extra_index_harmless:
  assumes "well_formed m block_shape"
  shows "sparsify_mask m block_shape = sparsify_mask_in_range m block_shape
     \<and> (\<forall>c st. \<not> (fst c < tile_rows m block_shape \<and> snd c < tile_cols m block_shape)
           \<and> grids_shaped (tile_rows m block_shape) (tile_cols m block_shape) st
         \<longrightarrow> concat (elems (mask_block m (fst block_shape) (snd block_shape) c)) = []
           \<and> loop_body m (fst block_shape) (snd block_shape) c st = st)"
proof -
  obtain bm bn where bs: "block_shape = (bm, bn)" by (cases block_shape)
  have wf: "well_formed m (bm, bn)" using assms bs by simp
  have 1: "sparsify_mask m block_shape = sparsify_mask_in_range m block_shape"
    by (simp add: sparsify_mask_def sparsify_mask_in_range_def bs well_formed_loops [OF wf])
  have 2: "concat (elems (mask_block m bm bn c)) = [] \<and> loop_body m bm bn c st = st"
    if out: "\<not> (fst c < nrows m div bm \<and> snd c < ncols m div bn)"
      and sh: "grids_shaped (nrows m div bm) (ncols m div bn) st" for c st
  proof -
    have ina: "\<not> active m bm bn c"
      by (rule well_formed_outside_inactive [OF wf out])
    have M: "nrows m div bm * bm = nrows m" and N: "ncols m div bn * bn = ncols m"
      using wf by (auto simp: well_formed_def)
    have "\<forall>row \<in> set (elems (mask_block m bm bn c)). row = []"
    proof (cases "fst c < nrows m div bm")
      case True
      then have "ncols m \<le> snd c * bn"
        using out N by (metis mult_le_mono1 not_less)
      then show ?thesis
        using wf by (auto simp: mask_block_def slice2_def well_formed_def valid_array_def
            list_all_iff dest!: in_set_takeD in_set_dropD)
    next
      case False
      then have "nrows m \<le> fst c * bm"
        using M by (metis mult_le_mono1 not_less)
      then show ?thesis
        using wf by (simp add: mask_block_def slice2_def well_formed_def valid_array_def)
    qed
    then have "concat (elems (mask_block m bm bn c)) = []" by simp
    then show ?thesis
      using loop_body_outside [OF ina out sh] by simp
  qed
  show ?thesis
    using 1 2 unfolding bs tile_rows_def tile_cols_def fst_conv snd_conv by blast
qed

theorem sparsify_mask_extra_index_harmless_witness:
  "well_formed m1 (2, 2)
   \<and> sparsify_mask m1 (2, 2) = sparsify_mask_in_range m1 (2, 2)
   \<and> sparsify_mask_in_range m1 (2, 2) =
       Inr (\<lparr>dtype = Int32, nrows = 2, ncols = 2, elems = [[1, 0], [0, 1]]\<rparr>,
            \<lparr>dtype = Int32, nrows = 2, ncols = 2, elems = [[1, 0], [0, 0]]\<rparr>,
            \<lparr>dtype = Int32, nrows = 2, ncols = 2, elems = [[0, 1], [1, 1]]\<rparr>,
            \<lparr>dtype = Int32, nrows = 2, ncols = 2, elems = [[0, 1], [1, 1]]\<rparr>,
            \<lparr>dtype3 = Int32, shape3 = (2, 2, 2),
               elems3 = [[[1, 1], [1, 1]], [[1, 0], [0, 0]]]\<rparr>)"
proof -
  have wf: "well_formed m1 (2, 2)"
    by (simp add: well_formed_def valid_array_def valid_elem_def m1_def)
  have "sparsify_mask_in_range m1 (2, 2) =
       Inr (\<lparr>dtype = Int32, nrows = 2, ncols = 2, elems = [[1, 0], [0, 1]]\<rparr>,
            \<lparr>dtype = Int32, nrows = 2, ncols = 2, elems = [[1, 0], [0, 0]]\<rparr>,
            \<lparr>dtype = Int32, nrows = 2, ncols = 2, elems = [[0, 1], [1, 1]]\<rparr>,
            \<lparr>dtype = Int32, nrows = 2, ncols = 2, elems = [[0, 1], [1, 1]]\<rparr>,
            \<lparr>dtype3 = Int32, shape3 = (2, 2, 2),
               elems3 = [[[1, 1], [1, 1]], [[1, 0], [0, 0]]]\<rparr>)"
    by code_simp
  then show ?thesis
    using wf sparsify_mask_extra_index_harmless [OF wf] by simp
qed

subsection \<open>A mask without a non-zero element\<close>

lemma jnp_any_slice2: "jnp_any (slice2 a r0 r1 c0 c1) \<Longrightarrow> jnp_any a"
  by (auto simp: jnp_any_def slice2_def list_ex_iff dest!: in_set_takeD in_set_dropD)

lemma active_imp_any: "active m bm bn c \<Longrightarrow> jnp_any m"
  unfolding active_def mask_block_def by (rule jnp_any_slice2)

lemma mask_data_inactive:
  "\<not> active m bm bn c \<Longrightarrow> mask_data (loop_body m bm bn c st) = mask_data st"
  by (simp add: loop_body_inactive)

lemma fold_mask_data_inactive:
  "\<forall>c \<in> set cs. \<not> active m bm bn c \<Longrightarrow>
     mask_data (fold (loop_body m bm bn) cs st) = mask_data st"
  by (induction cs arbitrary: st) (simp_all add: mask_data_inactive)

text \<open>
  C2. The claim is that a well-formed mask without an active tile makes
  \<open>sparsify_mask\<close> return normally. On the code it does not: the loops leave
  \<open>mask_data\<close> empty, and \<^verbatim>\<open>jnp.stack(mask_data)\<close> in the return statement raises
  ValueError on the empty list.
\<close>

theorem sparsify_mask_zero_mask_raises:
  assumes "well_formed m block_shape" and "\<not> jnp_any m"
  shows "mask_data (loops m (fst block_shape) (snd block_shape)
           (init_state (dtype m) (tile_rows m block_shape) (tile_cols m block_shape))) = []
         \<and> sparsify_mask m block_shape = Inl ValueError"
proof -
  let ?bm = "fst block_shape" and ?bn = "snd block_shape"
  let ?st0 = "init_state (dtype m) (nrows m div ?bm) (ncols m div ?bn)"
  have "\<not> active m ?bm ?bn c" for c
    using assms(2) active_imp_any by blast
  then have "mask_data (loops m ?bm ?bn ?st0) = mask_data ?st0"
    unfolding loops_scan by (intro fold_mask_data_inactive) blast
  then have empty: "mask_data (loops m ?bm ?bn ?st0) = []"
    by (simp add: init_state_def Let_def)
  then have "sparsify_mask m block_shape = Inl ValueError"
    using assms(1) by (simp add: sparsify_mask_def Let_def stack_def well_formed_def)
  with empty show ?thesis
    by (simp add: tile_rows_def tile_cols_def)
qed

theorem sparsify_mask_zero_mask_raises_witness:
  "well_formed (zeros 4 4 Bool) (2, 2) \<and> \<not> jnp_any (zeros 4 4 Bool)
   \<and> sparsify_mask (zeros 4 4 Bool) (2, 2) = Inl ValueError
   \<and> well_formed (zeros 4 4 Int32) (2, 2) \<and> \<not> jnp_any (zeros 4 4 Int32)
   \<and> sparsify_mask (zeros 4 4 Int32) (2, 2) = Inl ValueError"
proof -
  have wf: "well_formed (zeros 4 4 dt) (2, 2)" for dt
    by (cases dt) (simp_all add: well_formed_def valid_array_def valid_elem_def zeros_def list_all_iff)
  have z: "\<not> jnp_any (zeros 4 4 dt)" for dt
    by (simp add: jnp_any_def zeros_def list_ex_iff)
  show ?thesis
    using wf z sparsify_mask_zero_mask_raises [OF wf z] by simp
qed

subsection \<open>The tiles of the grid\<close>

lemma tiles_product: "tiles R C = List.product [0..<R] [0..<C]"
  by (simp add: tiles_def product_concat_map)

lemma set_tiles: "set (tiles R C) = {c. fst c < R \<and> snd c < C}"
  by (auto simp: tiles_product)

lemma distinct_tiles: "distinct (tiles R C)"
  by (simp add: tiles_product distinct_product)

lemma tiles_split:
  assumes "fst c < R" and "snd c < C"
  shows "\<exists>before. tiles R C = before @ c # tiles_after R C c"
proof -
  have R: "[0..<R] = [0..<fst c] @ fst c # [Suc (fst c)..<R]"
    using assms(1) by (metis less_imp_add_positive upt_add_eq_append upt_conv_Cons less_eq_nat.simps(1))
  have C: "[0..<C] = [0..<snd c] @ snd c # [Suc (snd c)..<C]"
    using assms(2) by (metis less_imp_add_positive upt_add_eq_append upt_conv_Cons less_eq_nat.simps(1))
  have "tiles R C = (concat (map (\<lambda>i. map (Pair i) [0..<C]) [0..<fst c]) @ map (Pair (fst c)) [0..<snd c])
      @ (fst c, snd c) # tiles_after R C c"
    unfolding tiles_def tiles_after_def by (subst R, simp, subst C, simp)
  then show ?thesis by auto
qed


subsection \<open>The carried next-active state\<close>

lemma next_loop_body:
  "next_i (loop_body m bm bn c st) = (if active m bm bn c then int (fst c) else next_i st)"
  "next_j (loop_body m bm bn c st) = (if active m bm bn c then int (snd c) else next_j st)"
  by (simp_all add: loop_body_active loop_body_inactive)

lemma next_fold:
  "next_i (fold (loop_body m bm bn) cs st) =
     (case List.find (active m bm bn) (rev cs) of None \<Rightarrow> next_i st | Some c \<Rightarrow> int (fst c))"
  "next_j (fold (loop_body m bm bn) cs st) =
     (case List.find (active m bm bn) (rev cs) of None \<Rightarrow> next_j st | Some c \<Rightarrow> int (snd c))"
  by (induction cs rule: rev_induct) (simp_all add: next_loop_body)

subsection \<open>Reading the grids\<close>

lemma at_get_at_set_same:
  "shaped R C a \<Longrightarrow> i < R \<Longrightarrow> j < C \<Longrightarrow> at_get (at_set a i j v) i j = astype (dtype a) v"
  by (simp add: shaped_def at_get_def at_set_def list_all_iff)

lemma at_get_at_set_other:
  "shaped R C a \<Longrightarrow> (i, j) \<noteq> (i', j') \<Longrightarrow> at_get (at_set a i j v) i' j' = at_get a i' j'"
  by (cases "i = i'") (auto simp: shaped_def at_get_def at_set_def)

lemma dtype_at_set: "dtype (at_set a i j v) = dtype a"
  by (simp add: at_set_def)

lemma dtype_loop_body:
  "dtype (block_mask (loop_body m bm bn c st)) = dtype (block_mask st)"
  "dtype (prefetch_mask (loop_body m bm bn c st)) = dtype (prefetch_mask st)"
  "dtype (prefetch_i (loop_body m bm bn c st)) = dtype (prefetch_i st)"
  "dtype (prefetch_j (loop_body m bm bn c st)) = dtype (prefetch_j st)"
  by (cases "active m bm bn c";
      simp add: loop_body_active loop_body_inactive dtype_at_set register_grids)+

lemma dtype_fold:
  "dtype (block_mask (fold (loop_body m bm bn) cs st)) = dtype (block_mask st)"
  "dtype (prefetch_mask (fold (loop_body m bm bn) cs st)) = dtype (prefetch_mask st)"
  "dtype (prefetch_i (fold (loop_body m bm bn) cs st)) = dtype (prefetch_i st)"
  "dtype (prefetch_j (fold (loop_body m bm bn) cs st)) = dtype (prefetch_j st)"
  by (induction cs arbitrary: st) (simp_all add: dtype_loop_body)

text \<open>What the loop body writes at its own coordinate is the carried state as the body
  leaves it, converted to the element type of the grid.\<close>

lemma loop_body_writes:
  assumes "grids_shaped R C st" and "fst c < R" and "snd c < C"
  shows "at_get (block_mask (loop_body m bm bn c st)) (fst c) (snd c) =
           astype (dtype (block_mask st)) (if active m bm bn c then 1 else 0)"
    and "at_get (prefetch_mask (loop_body m bm bn c st)) (fst c) (snd c) =
           astype (dtype (prefetch_mask st)) (next_mask_type_idx (loop_body m bm bn c st))"
    and "at_get (prefetch_i (loop_body m bm bn c st)) (fst c) (snd c) =
           astype (dtype (prefetch_i st)) (next_i (loop_body m bm bn c st))"
    and "at_get (prefetch_j (loop_body m bm bn c st)) (fst c) (snd c) =
           astype (dtype (prefetch_j st)) (next_j (loop_body m bm bn c st))"
proof -
  have w: "at_get (at_set a (fst c) (snd c) v) (fst c) (snd c) = astype (dtype a) v"
    if "shaped R C a" for a v
    using that assms(2,3) by (rule at_get_at_set_same)
  have sh: "shaped R C (block_mask st)" "shaped R C (prefetch_mask st)"
    "shaped R C (prefetch_i st)" "shaped R C (prefetch_j st)"
    using assms(1) by (simp_all add: grids_shaped_def)
  show "at_get (block_mask (loop_body m bm bn c st)) (fst c) (snd c) =
           astype (dtype (block_mask st)) (if active m bm bn c then 1 else 0)"
    by (cases "active m bm bn c") (simp_all add: loop_body_active loop_body_inactive w [OF sh(1)])
  show "at_get (prefetch_mask (loop_body m bm bn c st)) (fst c) (snd c) =
           astype (dtype (prefetch_mask st)) (next_mask_type_idx (loop_body m bm bn c st))"
    by (cases "active m bm bn c") (simp_all add: loop_body_active loop_body_inactive w [OF sh(2)])
  show "at_get (prefetch_i (loop_body m bm bn c st)) (fst c) (snd c) =
           astype (dtype (prefetch_i st)) (next_i (loop_body m bm bn c st))"
    by (cases "active m bm bn c") (simp_all add: loop_body_active loop_body_inactive w [OF sh(3)])
  show "at_get (prefetch_j (loop_body m bm bn c st)) (fst c) (snd c) =
           astype (dtype (prefetch_j st)) (next_j (loop_body m bm bn c st))"
    by (cases "active m bm bn c") (simp_all add: loop_body_active loop_body_inactive w [OF sh(4)])
qed

lemma loop_body_frame:
  assumes "grids_shaped R C st" and "c' \<noteq> c"
  shows "at_get (block_mask (loop_body m bm bn c st)) (fst c') (snd c') =
           at_get (block_mask st) (fst c') (snd c')"
    and "at_get (prefetch_mask (loop_body m bm bn c st)) (fst c') (snd c') =
           at_get (prefetch_mask st) (fst c') (snd c')"
    and "at_get (prefetch_i (loop_body m bm bn c st)) (fst c') (snd c') =
           at_get (prefetch_i st) (fst c') (snd c')"
    and "at_get (prefetch_j (loop_body m bm bn c st)) (fst c') (snd c') =
           at_get (prefetch_j st) (fst c') (snd c')"
proof -
  have ne: "(fst c, snd c) \<noteq> (fst c', snd c')"
    using assms(2) by (auto simp: prod_eq_iff)
  have *: "at_get (at_set a (fst c) (snd c) v) (fst c') (snd c') = at_get a (fst c') (snd c')"
    if "shaped R C a" for a v
    using that ne by (rule at_get_at_set_other)
  show "at_get (block_mask (loop_body m bm bn c st)) (fst c') (snd c') =
           at_get (block_mask st) (fst c') (snd c')"
    and "at_get (prefetch_mask (loop_body m bm bn c st)) (fst c') (snd c') =
           at_get (prefetch_mask st) (fst c') (snd c')"
    and "at_get (prefetch_i (loop_body m bm bn c st)) (fst c') (snd c') =
           at_get (prefetch_i st) (fst c') (snd c')"
    and "at_get (prefetch_j (loop_body m bm bn c st)) (fst c') (snd c') =
           at_get (prefetch_j st) (fst c') (snd c')"
    using assms(1)
    by (cases "active m bm bn c";
        simp add: loop_body_active loop_body_inactive grids_shaped_def *)+
qed

lemma fold_frame:
  assumes "grids_shaped R C st" and "c' \<notin> set cs"
  shows "at_get (block_mask (fold (loop_body m bm bn) cs st)) (fst c') (snd c') =
           at_get (block_mask st) (fst c') (snd c')"
    and "at_get (prefetch_mask (fold (loop_body m bm bn) cs st)) (fst c') (snd c') =
           at_get (prefetch_mask st) (fst c') (snd c')"
    and "at_get (prefetch_i (fold (loop_body m bm bn) cs st)) (fst c') (snd c') =
           at_get (prefetch_i st) (fst c') (snd c')"
    and "at_get (prefetch_j (fold (loop_body m bm bn) cs st)) (fst c') (snd c') =
           at_get (prefetch_j st) (fst c') (snd c')"
  using assms
  by (induction cs arbitrary: st)
     (simp_all add: grids_shaped_loop_body loop_body_frame [where R = R and C = C])

subsection \<open>Registering blocks\<close>

lemma index_None: "index xs x = None \<longleftrightarrow> x \<notin> set xs"
  by (induction xs) auto

lemma index_Some: "index xs x = Some k \<Longrightarrow> k < length xs \<and> xs ! k = x"
  by (induction xs arbitrary: k) (auto split: if_splits)

lemma register_fst:
  "fst (register b st) < length (mask_types_finder (snd (register b st)))
   \<and> mask_types_finder (snd (register b st)) ! fst (register b st) = str_array b"
  by (auto simp: register_def index_Some nth_append split: option.splits)

lemma register_snd:
  "mask_types_finder (snd (register b st)) =
     (if str_array b \<in> set (mask_types_finder st) then mask_types_finder st
      else mask_types_finder st @ [str_array b])"
  "mask_data (snd (register b st)) =
     (if str_array b \<in> set (mask_types_finder st) then mask_data st
      else mask_data st @ [b])"
  by (auto simp: register_def index_None split: option.splits)
     (metis index_None option.distinct(1))+

lemma loop_body_lists:
  "mask_types_finder (loop_body m bm bn c st) =
     (if active m bm bn c \<and> str_array (mask_block m bm bn c) \<notin> set (mask_types_finder st)
      then mask_types_finder st @ [str_array (mask_block m bm bn c)]
      else mask_types_finder st)"
  "mask_data (loop_body m bm bn c st) =
     (if active m bm bn c \<and> str_array (mask_block m bm bn c) \<notin> set (mask_types_finder st)
      then mask_data st @ [mask_block m bm bn c]
      else mask_data st)"
  by (cases "active m bm bn c"; simp add: loop_body_active loop_body_inactive register_snd)+

lemma loop_body_idx:
  "next_mask_type_idx (loop_body m bm bn c st) =
     (if active m bm bn c then int (fst (register (mask_block m bm bn c) st))
      else next_mask_type_idx st)"
  by (simp add: loop_body_active loop_body_inactive)

lemma loop_body_idx_active:
  assumes "active m bm bn c"
  shows "\<exists>k. next_mask_type_idx (loop_body m bm bn c st) = int k
     \<and> k < length (mask_types_finder (loop_body m bm bn c st))
     \<and> mask_types_finder (loop_body m bm bn c st) ! k = str_array (mask_block m bm bn c)"
proof -
  have "mask_types_finder (loop_body m bm bn c st) =
      mask_types_finder (snd (register (mask_block m bm bn c) st))"
    using assms by (simp add: loop_body_active)
  then show ?thesis
    using assms register_fst [of "mask_block m bm bn c" st] by (simp add: loop_body_idx)
qed

lemma finder_ok_loop_body: "finder_ok st \<Longrightarrow> finder_ok (loop_body m bm bn c st)"
  by (auto simp: finder_ok_def loop_body_lists)

lemma finder_ok_fold: "finder_ok st \<Longrightarrow> finder_ok (fold (loop_body m bm bn) cs st)"
  by (induction cs arbitrary: st) (simp_all add: finder_ok_loop_body)

lemma finder_ok_init: "finder_ok (init_state dt R C)"
  by (simp add: finder_ok_def init_state_def Let_def)

text \<open>The lists of registered blocks only grow.\<close>

lemma fold_lists_grow:
  "\<exists>ks. mask_types_finder (fold (loop_body m bm bn) cs st) = mask_types_finder st @ ks"
  "\<exists>bs. mask_data (fold (loop_body m bm bn) cs st) = mask_data st @ bs"
proof (induction cs arbitrary: st)
  case Nil
  { case 1 show ?case by simp }
  { case 2 show ?case by simp }
next
  case (Cons c cs)
  { case 1
    obtain ks where "mask_types_finder (fold (loop_body m bm bn) cs (loop_body m bm bn c st)) =
        mask_types_finder (loop_body m bm bn c st) @ ks"
      using Cons.IH(1) by blast
    then show ?case by (simp add: loop_body_lists) }
  { case 2
    obtain bs where "mask_data (fold (loop_body m bm bn) cs (loop_body m bm bn c st)) =
        mask_data (loop_body m bm bn c st) @ bs"
      using Cons.IH(2) by blast
    then show ?case by (simp add: loop_body_lists) }
qed

text \<open>After a pass the carried content index is the position of the printed form of the
  block of the tile that was active last.\<close>

lemma idx_fold_None:
  "List.find (active m bm bn) (rev cs) = None \<Longrightarrow>
     next_mask_type_idx (fold (loop_body m bm bn) cs st) = next_mask_type_idx st"
  by (induction cs rule: rev_induct) (simp_all add: loop_body_idx split: if_splits)

lemma idx_fold_Some:
  "List.find (active m bm bn) (rev cs) = Some c \<Longrightarrow>
     \<exists>k. next_mask_type_idx (fold (loop_body m bm bn) cs st) = int k
        \<and> k < length (mask_types_finder (fold (loop_body m bm bn) cs st))
        \<and> mask_types_finder (fold (loop_body m bm bn) cs st) ! k = str_array (mask_block m bm bn c)"
proof (induction cs rule: rev_induct)
  case Nil
  then show ?case by simp
next
  case (snoc x xs)
  show ?case
  proof (cases "active m bm bn x")
    case True
    then have "c = x" using snoc.prems by simp
    then show ?thesis
      using loop_body_idx_active [OF True] by simp
  next
    case False
    then have "List.find (active m bm bn) (rev xs) = Some c"
      using snoc.prems by simp
    then show ?thesis
      using snoc.IH False by (simp add: loop_body_idx loop_body_lists)
  qed
qed

subsection \<open>The grids after the loops\<close>

lemma init_state_fields:
  "dtype (block_mask (init_state dt R C)) = dt"
  "dtype (prefetch_mask (init_state dt R C)) = dt"
  "dtype (prefetch_i (init_state dt R C)) = dt"
  "dtype (prefetch_j (init_state dt R C)) = dt"
  "next_i (init_state dt R C) = int R - 1"
  "next_j (init_state dt R C) = int C - 1"
  "next_mask_type_idx (init_state dt R C) = 0"
  "mask_data (init_state dt R C) = []"
  "mask_types_finder (init_state dt R C) = []"
  by (simp_all add: init_state_def Let_def zeros_like_def zeros_def)

text \<open>
  The value of each grid at a tile of the grid, after the pass over the tiles in reverse:
  it is what the loop body wrote when it visited the tile, that is the carried state
  after the pass over the tiles that follow it and the tile itself.
\<close>

lemma pass_values:
  fixes m :: array2 and bm bn :: nat and dt :: dtype
  assumes "fst c < R" and "snd c < C"
  defines "F \<equiv> fold (loop_body m bm bn) (rev (tiles R C)) (init_state dt R C)"
    and "S \<equiv> fold (loop_body m bm bn) (rev (tiles_after R C c) @ [c]) (init_state dt R C)"
  shows "at_get (block_mask F) (fst c) (snd c) = astype dt (if active m bm bn c then 1 else 0)"
    and "at_get (prefetch_mask F) (fst c) (snd c) = astype dt (next_mask_type_idx S)"
    and "at_get (prefetch_i F) (fst c) (snd c) = astype dt (next_i S)"
    and "at_get (prefetch_j F) (fst c) (snd c) = astype dt (next_j S)"
    and "\<exists>ks. mask_types_finder F = mask_types_finder S @ ks"
    and "\<exists>bs. mask_data F = mask_data S @ bs"
proof -
  obtain before where split: "tiles R C = before @ c # tiles_after R C c"
    using tiles_split [OF assms(1,2)] by blast
  have notin: "c \<notin> set (rev before)"
    using distinct_tiles [of R C] unfolding split by simp
  define S0 where "S0 = fold (loop_body m bm bn) (rev (tiles_after R C c)) (init_state dt R C)"
  have S: "S = loop_body m bm bn c S0"
    by (simp add: S_def S0_def)
  have F: "F = fold (loop_body m bm bn) (rev before) S"
    by (simp add: F_def S_def split)
  have sh0: "grids_shaped R C S0"
    unfolding S0_def by (intro grids_shaped_fold grids_shaped_init)
  have sh: "grids_shaped R C S"
    unfolding S by (intro grids_shaped_loop_body sh0)
  have dt: "dtype (block_mask S0) = dt" "dtype (prefetch_mask S0) = dt"
    "dtype (prefetch_i S0) = dt" "dtype (prefetch_j S0) = dt"
    by (simp_all add: S0_def dtype_fold init_state_fields)
  have "at_get (block_mask F) (fst c) (snd c) = at_get (block_mask S) (fst c) (snd c)"
    unfolding F by (rule fold_frame(1) [OF sh notin])
  also have "\<dots> = astype dt (if active m bm bn c then 1 else 0)"
    unfolding S loop_body_writes(1) [OF sh0 assms(1,2)] dt ..
  finally show "at_get (block_mask F) (fst c) (snd c) =
      astype dt (if active m bm bn c then 1 else 0)" .
  have "at_get (prefetch_mask F) (fst c) (snd c) = at_get (prefetch_mask S) (fst c) (snd c)"
    unfolding F by (rule fold_frame(2) [OF sh notin])
  also have "\<dots> = astype dt (next_mask_type_idx S)"
    unfolding S loop_body_writes(2) [OF sh0 assms(1,2)] dt ..
  finally show "at_get (prefetch_mask F) (fst c) (snd c) = astype dt (next_mask_type_idx S)" .
  have "at_get (prefetch_i F) (fst c) (snd c) = at_get (prefetch_i S) (fst c) (snd c)"
    unfolding F by (rule fold_frame(3) [OF sh notin])
  also have "\<dots> = astype dt (next_i S)"
    unfolding S loop_body_writes(3) [OF sh0 assms(1,2)] dt ..
  finally show "at_get (prefetch_i F) (fst c) (snd c) = astype dt (next_i S)" .
  have "at_get (prefetch_j F) (fst c) (snd c) = at_get (prefetch_j S) (fst c) (snd c)"
    unfolding F by (rule fold_frame(4) [OF sh notin])
  also have "\<dots> = astype dt (next_j S)"
    unfolding S loop_body_writes(4) [OF sh0 assms(1,2)] dt ..
  finally show "at_get (prefetch_j F) (fst c) (snd c) = astype dt (next_j S)" .
  show "\<exists>ks. mask_types_finder F = mask_types_finder S @ ks"
    unfolding F by (rule fold_lists_grow)
  show "\<exists>bs. mask_data F = mask_data S @ bs"
    unfolding F by (rule fold_lists_grow)
qed

text \<open>The next active tile of a tile: the first active tile among the tile itself and
  those that follow it in forward order.\<close>

lemma pass_next:
  fixes m :: array2 and bm bn :: nat and dt :: dtype
  assumes "fst c < R" and "snd c < C"
  defines "F \<equiv> fold (loop_body m bm bn) (rev (tiles R C)) (init_state dt R C)"
  shows "at_get (prefetch_i F) (fst c) (snd c) =
           astype dt (case List.find (active m bm bn) (c # tiles_after R C c) of
                        None \<Rightarrow> int R - 1 | Some c' \<Rightarrow> int (fst c'))"
    and "at_get (prefetch_j F) (fst c) (snd c) =
           astype dt (case List.find (active m bm bn) (c # tiles_after R C c) of
                        None \<Rightarrow> int C - 1 | Some c' \<Rightarrow> int (snd c'))"
  unfolding F_def pass_values(3,4) [OF assms(1,2)] next_fold
  by (simp_all add: init_state_fields split: option.splits)

subsection \<open>The result of the function\<close>

lemma sparsify_mask_Inr:
  assumes "sparsify_mask m (bm, bn) = Inr (b, pm, p_i, p_j, md)"
  defines "F \<equiv> loops m bm bn (init_state (dtype m) (nrows m div bm) (ncols m div bn))"
  shows "0 < bm" and "0 < bn" and "b = block_mask F" and "pm = prefetch_mask F"
    and "p_i = prefetch_i F" and "p_j = prefetch_j F" and "stack (mask_data F) = Inr md"
  using assms by (auto simp: sparsify_mask_def Let_def split: if_splits sum.splits)

lemma stack_Inr:
  "stack xs = Inr md \<Longrightarrow> xs \<noteq> [] \<and> elems3 md = map elems xs \<and> dtype3 md = dtype (hd xs)"
  by (auto simp: stack_def split: list.splits if_splits)

lemma stack_same_shape:
  "xs \<noteq> [] \<Longrightarrow> \<forall>x \<in> set xs. nrows x = r \<and> ncols x = c \<Longrightarrow> \<exists>md. stack xs = Inr md"
  by (cases xs) (auto simp: stack_def list_all_iff)

lemma well_formed_pass:
  assumes "well_formed m (bm, bn)"
  shows "loops m bm bn (init_state dt (nrows m div bm) (ncols m div bn)) =
     fold (loop_body m bm bn) (rev (tiles (nrows m div bm) (ncols m div bn)))
       (init_state dt (nrows m div bm) (ncols m div bn))"
  by (simp add: well_formed_loops [OF assms] loops_in_range_tiles)

lemma well_formed_active_tile:
  assumes "well_formed m (bm, bn)" and "jnp_any m"
  shows "\<exists>c. fst c < nrows m div bm \<and> snd c < ncols m div bn \<and> active m bm bn c"
proof -
  from assms(2) obtain r k where rk: "r < length (elems m)" "k < length (elems m ! r)"
      "elems m ! r ! k \<noteq> 0"
    by (auto simp: jnp_any_def list_ex_iff in_set_conv_nth)
  have pos: "0 < bm" "0 < bn"
    using assms(1) by (auto simp: well_formed_def)
  let ?c = "(r div bm, k div bn)"
  have "r div bm * bm \<le> r" "r < (r div bm + 1) * bm" "k div bn * bn \<le> k" "k < (k div bn + 1) * bn"
    using pos dividend_less_div_times [of bm r] dividend_less_div_times [of bn k]
    by (simp_all add: add.commute)
  then have act: "active m bm bn ?c"
    unfolding active_iff fst_conv snd_conv using rk by blast
  then have "fst ?c < nrows m div bm \<and> snd ?c < ncols m div bn"
    using well_formed_outside_inactive [OF assms(1)] by blast
  with act show ?thesis by blast
qed

lemma mask_block_shape:
  assumes "well_formed m (bm, bn)" and "fst c < nrows m div bm" and "snd c < ncols m div bn"
  shows "nrows (mask_block m bm bn c) = bm" and "ncols (mask_block m bm bn c) = bn"
proof -
  have M: "nrows m div bm * bm = nrows m" and N: "ncols m div bn * bn = ncols m"
    using assms(1) by (auto simp: well_formed_def)
  have "(fst c + 1) * bm \<le> nrows m div bm * bm" "(snd c + 1) * bn \<le> ncols m div bn * bn"
    using assms(2,3) by (simp_all add: Suc_leI mult_le_mono1 del: mult_Suc)
  then have "(fst c + 1) * bm \<le> nrows m" "(snd c + 1) * bn \<le> ncols m"
    using M N by simp_all
  then show "nrows (mask_block m bm bn c) = bm" "ncols (mask_block m bm bn c) = bn"
    by (simp_all add: mask_block_def slice2_def min_def)
qed

text \<open>Every registered block is the block of an active tile that the pass visited.\<close>

lemma fold_data_blocks:
  "b \<in> set (mask_data (fold (loop_body m bm bn) cs st)) \<Longrightarrow>
     b \<in> set (mask_data st) \<or> (\<exists>c \<in> set cs. active m bm bn c \<and> b = mask_block m bm bn c)"
proof (induction cs arbitrary: st)
  case Nil
  then show ?case by simp
next
  case (Cons c cs)
  from Cons.IH [of "loop_body m bm bn c st"] Cons.prems
  have "b \<in> set (mask_data (loop_body m bm bn c st))
      \<or> (\<exists>c \<in> set cs. active m bm bn c \<and> b = mask_block m bm bn c)"
    by simp
  then show ?case
    by (auto simp: loop_body_lists split: if_splits)
qed

lemma fold_data_nonempty:
  assumes "c \<in> set cs" and "active m bm bn c" and "finder_ok st"
  shows "mask_data (fold (loop_body m bm bn) cs st) \<noteq> []"
proof -
  obtain pre post where cs: "cs = pre @ c # post"
    using assms(1) by (meson split_list)
  let ?S = "fold (loop_body m bm bn) pre st"
  have ok: "finder_ok ?S" by (rule finder_ok_fold [OF assms(3)])
  have "mask_data (loop_body m bm bn c ?S) \<noteq> []"
    using assms(2) ok by (auto simp: loop_body_lists finder_ok_def)
  moreover obtain bs where "mask_data (fold (loop_body m bm bn) post (loop_body m bm bn c ?S)) =
      mask_data (loop_body m bm bn c ?S) @ bs"
    using fold_lists_grow(2) by blast
  ultimately show ?thesis by (simp add: cs)
qed

text \<open>On a well-formed mask with a non-zero element the function returns.\<close>

lemma sparsify_mask_returns:
  assumes "well_formed m (bm, bn)" and "jnp_any m"
  shows "\<exists>md. sparsify_mask m (bm, bn) =
     Inr (block_mask (loops m bm bn (init_state (dtype m) (nrows m div bm) (ncols m div bn))),
          prefetch_mask (loops m bm bn (init_state (dtype m) (nrows m div bm) (ncols m div bn))),
          prefetch_i (loops m bm bn (init_state (dtype m) (nrows m div bm) (ncols m div bn))),
          prefetch_j (loops m bm bn (init_state (dtype m) (nrows m div bm) (ncols m div bn))),
          md)"
proof -
  let ?R = "nrows m div bm" and ?C = "ncols m div bn"
  let ?F = "loops m bm bn (init_state (dtype m) ?R ?C)"
  have F: "?F = fold (loop_body m bm bn) (rev (tiles ?R ?C)) (init_state (dtype m) ?R ?C)"
    by (rule well_formed_pass [OF assms(1)])
  obtain c where c: "fst c < ?R" "snd c < ?C" "active m bm bn c"
    using well_formed_active_tile [OF assms] by blast
  then have "c \<in> set (rev (tiles ?R ?C))" by (simp add: set_tiles)
  then have ne: "mask_data ?F \<noteq> []"
    unfolding F using c(3) finder_ok_init by (rule fold_data_nonempty)
  have "nrows b = bm \<and> ncols b = bn" if "b \<in> set (mask_data ?F)" for b
  proof -
    from that obtain c' where "c' \<in> set (rev (tiles ?R ?C))" "b = mask_block m bm bn c'"
      unfolding F
      using fold_data_blocks [of b m bm bn "rev (tiles ?R ?C)" "init_state (dtype m) ?R ?C"]
      by (auto simp: init_state_fields)
    then show ?thesis
      using mask_block_shape [OF assms(1), of c'] by (simp add: set_tiles)
  qed
  then obtain md where "stack (mask_data ?F) = Inr md"
    using stack_same_shape [OF ne] by blast
  moreover have "0 < bm" "0 < bn" using assms(1) by (auto simp: well_formed_def)
  ultimately show ?thesis
    by (simp add: sparsify_mask_def Let_def)
qed

subsection \<open>Bounds of the stored coordinates\<close>







subsection \<open>The element type of the grids\<close>

lemma loop_body_grids:
  "block_mask (loop_body m bm bn c st) =
     at_set (block_mask st) (fst c) (snd c) (if active m bm bn c then 1 else 0)"
  "prefetch_mask (loop_body m bm bn c st) =
     at_set (prefetch_mask st) (fst c) (snd c) (next_mask_type_idx (loop_body m bm bn c st))"
  "prefetch_i (loop_body m bm bn c st) =
     at_set (prefetch_i st) (fst c) (snd c) (next_i (loop_body m bm bn c st))"
  "prefetch_j (loop_body m bm bn c st) =
     at_set (prefetch_j st) (fst c) (snd c) (next_j (loop_body m bm bn c st))"
proof -
  show "block_mask (loop_body m bm bn c st) =
     at_set (block_mask st) (fst c) (snd c) (if active m bm bn c then 1 else 0)"
    by (cases "active m bm bn c") (simp_all add: loop_body_active loop_body_inactive)
  show "prefetch_mask (loop_body m bm bn c st) =
     at_set (prefetch_mask st) (fst c) (snd c) (next_mask_type_idx (loop_body m bm bn c st))"
    by (cases "active m bm bn c") (simp_all add: loop_body_active loop_body_inactive)
  show "prefetch_i (loop_body m bm bn c st) =
     at_set (prefetch_i st) (fst c) (snd c) (next_i (loop_body m bm bn c st))"
    by (cases "active m bm bn c") (simp_all add: loop_body_active loop_body_inactive)
  show "prefetch_j (loop_body m bm bn c st) =
     at_set (prefetch_j st) (fst c) (snd c) (next_j (loop_body m bm bn c st))"
    by (cases "active m bm bn c") (simp_all add: loop_body_active loop_body_inactive)
qed

lemma set_list_update_cases:
  "x \<in> set (xs[i := y]) \<Longrightarrow> x = y \<and> i < length xs \<or> x \<in> set xs"
proof (cases "i < length xs")
  case True
  assume "x \<in> set (xs[i := y])"
  then show ?thesis using True set_update_subset_insert [of xs i y] by auto
next
  case False
  assume "x \<in> set (xs[i := y])"
  then show ?thesis using False by (simp add: list_update_beyond)
qed

lemma bool_at_set:
  assumes "dtype a = Bool" and "\<forall>row \<in> set (elems a). \<forall>v \<in> set row. v = 0 \<or> v = 1"
  shows "\<forall>row \<in> set (elems (at_set a i j v)). \<forall>v \<in> set row. v = 0 \<or> v = 1"
proof (intro ballI)
  fix row w assume row: "row \<in> set (elems (at_set a i j v))" and w: "w \<in> set row"
  have old: "w = 0 \<or> w = 1" if "r \<in> set (elems a)" "w \<in> set r" for r
    using assms(2) that by blast
  show "w = 0 \<or> w = 1"
  proof (cases "i < nrows a \<and> j < ncols a")
    case False
    then have "at_set a i j v = a" by (rule at_set_outside)
    then show ?thesis using row w old by simp
  next
    case True
    then have e: "elems (at_set a i j v) = (elems a)[i := (elems a ! i)[j := astype Bool v]]"
      using assms(1) by (simp add: at_set_def)
    from row have "row \<in> set ((elems a)[i := (elems a ! i)[j := astype Bool v]])"
      unfolding e .
    then have "row = (elems a ! i)[j := astype Bool v] \<and> i < length (elems a)
        \<or> row \<in> set (elems a)"
      by (rule set_list_update_cases)
    then show ?thesis
    proof (elim disjE conjE)
      assume r: "row = (elems a ! i)[j := astype Bool v]" and i: "i < length (elems a)"
      from w have "w \<in> set ((elems a ! i)[j := astype Bool v])" unfolding r .
      then have "w = astype Bool v \<and> j < length (elems a ! i) \<or> w \<in> set (elems a ! i)"
        by (rule set_list_update_cases)
      then show ?thesis
      proof (elim disjE conjE)
        assume "w = astype Bool v"
        then show ?thesis by (simp add: astype_def)
      next
        assume "w \<in> set (elems a ! i)"
        moreover have "elems a ! i \<in> set (elems a)" using i by (rule nth_mem)
        ultimately show ?thesis using old by blast
      qed
    next
      assume "row \<in> set (elems a)"
      then show ?thesis using w by (rule old)
    qed
  qed
qed

lemma bool_valued_at_set: "bool_valued a \<Longrightarrow> bool_valued (at_set a i j v)"
  unfolding bool_valued_def list_all_iff dtype_at_set
  using bool_at_set [of a i j v] by blast

lemma bool_valued_loop_body:
  "bool_valued (prefetch_mask st) \<Longrightarrow> bool_valued (prefetch_mask (loop_body m bm bn c st))"
  "bool_valued (prefetch_i st) \<Longrightarrow> bool_valued (prefetch_i (loop_body m bm bn c st))"
  "bool_valued (prefetch_j st) \<Longrightarrow> bool_valued (prefetch_j (loop_body m bm bn c st))"
  unfolding loop_body_grids by (rule bool_valued_at_set, assumption)+

lemma bool_valued_fold:
  "bool_valued (prefetch_mask st) \<Longrightarrow>
     bool_valued (prefetch_mask (fold (loop_body m bm bn) cs st))"
  "bool_valued (prefetch_i st) \<Longrightarrow> bool_valued (prefetch_i (fold (loop_body m bm bn) cs st))"
  "bool_valued (prefetch_j st) \<Longrightarrow> bool_valued (prefetch_j (fold (loop_body m bm bn) cs st))"
  by (induction cs arbitrary: st) (simp_all add: bool_valued_loop_body)

lemma bool_valued_init:
  "bool_valued (prefetch_mask (init_state Bool R C))"
  "bool_valued (prefetch_i (init_state Bool R C))"
  "bool_valued (prefetch_j (init_state Bool R C))"
  by (simp_all add: bool_valued_def init_state_def Let_def zeros_like_def zeros_def list_all_iff)

subsection \<open>A mask whose dimensions the block shape does not divide\<close>

lemma take_drop_take: "a + b \<le> c \<Longrightarrow> take a (drop b (take c xs)) = take a (drop b xs)"
  by (simp add: drop_take min_def)

lemma truncated_fields:
  "dtype (truncated m bm bn) = dtype m"
  "nrows (truncated m bm bn) = nrows m div bm * bm"
  "ncols (truncated m bm bn) = ncols m div bn * bn"
  "elems (truncated m bm bn) =
     map (take (ncols m div bn * bn)) (take (nrows m div bm * bm) (elems m))"
  by (simp_all add: truncated_def slice2_def)

lemma truncated_tiles:
  assumes "0 < bm" and "0 < bn"
  shows "nrows (truncated m bm bn) div bm = nrows m div bm"
    and "ncols (truncated m bm bn) div bn = ncols m div bn"
  using assms by (simp_all add: truncated_fields)

lemma mask_block_truncated:
  assumes "fst c < nrows m div bm" and "snd c < ncols m div bn"
  shows "mask_block (truncated m bm bn) bm bn c = mask_block m bm bn c"
proof -
  let ?R = "nrows m div bm" and ?C = "ncols m div bn"
  have r: "(fst c + 1) * bm \<le> ?R * bm" and c: "(snd c + 1) * bn \<le> ?C * bn"
    using assms by (simp_all add: Suc_leI mult_le_mono1 del: mult_Suc)
  have R: "?R * bm \<le> nrows m" and C: "?C * bn \<le> ncols m"
    by simp_all
  have d: "(fst c + 1) * bm - fst c * bm = bm" "(snd c + 1) * bn - snd c * bn = bn"
    by simp_all
  have rows: "take bm (drop (fst c * bm) (take (?R * bm) xs)) = take bm (drop (fst c * bm) xs)"
    for xs :: "int list list"
    using r by (intro take_drop_take) simp
  have cols: "take bn (drop (snd c * bn) (take (?C * bn) row)) = take bn (drop (snd c * bn) row)"
    for row :: "int list"
    using c by (intro take_drop_take) simp
  have "elems (mask_block (truncated m bm bn) bm bn c) = elems (mask_block m bm bn c)"
    unfolding mask_block_def slice2_def truncated_fields d
    by (simp add: drop_map take_map rows cols comp_def)
  moreover have "nrows (mask_block (truncated m bm bn) bm bn c) = nrows (mask_block m bm bn c)"
  proof -
    have 1: "(fst c + 1) * bm \<le> nrows m" using r R by (rule order_trans)
    have 2: "fst c * bm \<le> (fst c + 1) * bm" by simp
    have 3: "fst c * bm \<le> ?R * bm" using 2 r by (rule order_trans)
    have 4: "fst c * bm \<le> nrows m" using 2 1 by (rule order_trans)
    show ?thesis
      unfolding mask_block_def slice2_def truncated_fields array2.simps
        min_absorb1 [OF r] min_absorb1 [OF 1] min_absorb1 [OF 3] min_absorb1 [OF 4] ..
  qed
  moreover have "ncols (mask_block (truncated m bm bn) bm bn c) = ncols (mask_block m bm bn c)"
  proof -
    have 1: "(snd c + 1) * bn \<le> ncols m" using c C by (rule order_trans)
    have 2: "snd c * bn \<le> (snd c + 1) * bn" by simp
    have 3: "snd c * bn \<le> ?C * bn" using 2 c by (rule order_trans)
    have 4: "snd c * bn \<le> ncols m" using 2 1 by (rule order_trans)
    show ?thesis
      unfolding mask_block_def slice2_def truncated_fields array2.simps
        min_absorb1 [OF c] min_absorb1 [OF 1] min_absorb1 [OF 3] min_absorb1 [OF 4] ..
  qed
  moreover have "dtype (mask_block (truncated m bm bn) bm bn c) = dtype (mask_block m bm bn c)"
    by (simp add: mask_block_def slice2_def truncated_fields)
  ultimately show ?thesis by simp
qed

lemma loop_body_cong:
  "mask_block m' bm bn c = mask_block m bm bn c \<Longrightarrow> loop_body m' bm bn c = loop_body m bm bn c"
  by (rule ext) (simp add: loop_body_def)

lemma leftover_zero_truncated:
  assumes "valid_array m" and "0 < bm" and "0 < bn"
  shows "leftover_zero (truncated m bm bn) bm bn"
    and "length (elems (truncated m bm bn)) = nrows (truncated m bm bn)"
    and "r < nrows (truncated m bm bn) \<Longrightarrow>
           length (elems (truncated m bm bn) ! r) = ncols (truncated m bm bn)"
proof -
  have len: "length (elems m) = nrows m" using assms(1) by (rule valid_array_lengths)
  have R: "nrows m div bm * bm \<le> nrows m" and C: "ncols m div bn * bn \<le> ncols m"
    by simp_all
  show l: "length (elems (truncated m bm bn)) = nrows (truncated m bm bn)"
    using len R by (simp add: truncated_fields)
  show l2: "length (elems (truncated m bm bn) ! r) = ncols (truncated m bm bn)"
    if "r < nrows (truncated m bm bn)" for r
  proof -
    have "r < nrows m div bm * bm" using that by (simp add: truncated_fields)
    then have "r < nrows m" using R by (rule less_le_trans)
    then have "length (elems m ! r) = ncols m"
      using assms(1) by (rule valid_array_lengths(2) [rotated])
    then show ?thesis
      using that len C by (simp add: truncated_fields)
  qed
  show "leftover_zero (truncated m bm bn) bm bn"
    unfolding leftover_zero_def jnp_any_slice2_iff truncated_tiles [OF assms(2,3)]
    using l l2 by (auto simp: truncated_fields(2,3))
qed

lemma fold_cong_on:
  "(\<And>x. x \<in> set xs \<Longrightarrow> f x = g x) \<Longrightarrow> fold f xs s = fold g xs s"
  by (induction xs arbitrary: s) simp_all

text \<open>
  C1. The claim is that \<open>sparsify_mask\<close> fails with a DimensionMismatch error whenever the
  block shape does not divide the dimensions of the mask. The function has no such
  check. On the mask \<open>m3\<close> of 3 rows with blocks of 2 by 2 it returns normally, and
  what it returns is the result for the first two rows alone.
\<close>

theorem sparsify_mask_no_dimension_check:
  "nrows m3 mod fst (2 :: nat, 2 :: nat) \<noteq> 0
   \<and> sparsify_mask m3 (2, 2) =
       Inr (\<lparr>dtype = Int32, nrows = 1, ncols = 1, elems = [[1]]\<rparr>,
            \<lparr>dtype = Int32, nrows = 1, ncols = 1, elems = [[0]]\<rparr>,
            \<lparr>dtype = Int32, nrows = 1, ncols = 1, elems = [[0]]\<rparr>,
            \<lparr>dtype = Int32, nrows = 1, ncols = 1, elems = [[0]]\<rparr>,
            \<lparr>dtype3 = Int32, shape3 = (1, 2, 2), elems3 = [[[1, 1], [1, 1]]]\<rparr>)
   \<and> sparsify_mask \<lparr>dtype = Int32, nrows = 2, ncols = 2, elems = [[1, 1], [1, 1]]\<rparr> (2, 2) =
       sparsify_mask m3 (2, 2)"
proof -
  have 1: "nrows m3 mod fst (2 :: nat, 2 :: nat) \<noteq> 0"
    by (simp add: m3_def)
  have 2: "sparsify_mask m3 (2, 2) =
       Inr (\<lparr>dtype = Int32, nrows = 1, ncols = 1, elems = [[1]]\<rparr>,
            \<lparr>dtype = Int32, nrows = 1, ncols = 1, elems = [[0]]\<rparr>,
            \<lparr>dtype = Int32, nrows = 1, ncols = 1, elems = [[0]]\<rparr>,
            \<lparr>dtype = Int32, nrows = 1, ncols = 1, elems = [[0]]\<rparr>,
            \<lparr>dtype3 = Int32, shape3 = (1, 2, 2), elems3 = [[[1, 1], [1, 1]]]\<rparr>)"
    by code_simp
  have 3: "sparsify_mask \<lparr>dtype = Int32, nrows = 2, ncols = 2, elems = [[1, 1], [1, 1]]\<rparr> (2, 2) =
       Inr (\<lparr>dtype = Int32, nrows = 1, ncols = 1, elems = [[1]]\<rparr>,
            \<lparr>dtype = Int32, nrows = 1, ncols = 1, elems = [[0]]\<rparr>,
            \<lparr>dtype = Int32, nrows = 1, ncols = 1, elems = [[0]]\<rparr>,
            \<lparr>dtype = Int32, nrows = 1, ncols = 1, elems = [[0]]\<rparr>,
            \<lparr>dtype3 = Int32, shape3 = (1, 2, 2), elems3 = [[[1, 1], [1, 1]]]\<rparr>)"
    by code_simp
  show ?thesis using 1 2 3 by simp
qed

text \<open>
  C1, as amended. \<open>sparsify_mask\<close> does not check that the block shape divides the
  dimensions of the mask; its grid has \<open>M // bm\<close> by \<open>N // bn\<close> tiles. For every valid
  mask and every block shape with \<open>0 < bm \<le> M\<close> and \<open>0 < bn \<le> N\<close>, where the rows and
  columns beyond the last whole tile hold only zeros, it returns what it returns on the
  mask cut down to its whole tiles: the part beyond them is silently dropped.
\<close>

theorem sparsify_mask_truncates:
  assumes "valid_array m"
    and "0 < fst block_shape" and "fst block_shape \<le> nrows m"
    and "0 < snd block_shape" and "snd block_shape \<le> ncols m"
    and "leftover_zero m (fst block_shape) (snd block_shape)"
  shows "sparsify_mask m block_shape =
         sparsify_mask (truncated m (fst block_shape) (snd block_shape)) block_shape"
proof -
  obtain bm bn where bs: "block_shape = (bm, bn)" by (cases block_shape)
  have pos: "0 < bm" "0 < bn" and lz: "leftover_zero m bm bn"
    using assms bs by simp_all
  let ?t = "truncated m bm bn"
  let ?R = "nrows m div bm" and ?C = "ncols m div bn"
  let ?st0 = "init_state (dtype m) ?R ?C"
  have tR: "nrows ?t div bm = ?R" and tC: "ncols ?t div bn = ?C"
    by (rule truncated_tiles [OF pos])+
  have out_m: "\<not> active m bm bn c" if "\<not> (fst c < ?R \<and> snd c < ?C)" for c
    using lz valid_array_lengths(1) [OF assms(1)] valid_array_lengths(2) [OF assms(1)] that
    by (rule outside_inactive)
  have out_t: "\<not> active ?t bm bn c" if "\<not> (fst c < ?R \<and> snd c < ?C)" for c
    using leftover_zero_truncated [OF assms(1) pos] that
    by (intro outside_inactive) (simp_all add: tR tC)
  have "loops m bm bn ?st0 = loops_in_range m bm bn ?st0"
    using out_m by (intro loops_eq_loops_in_range grids_shaped_init) blast
  also have "\<dots> = fold (loop_body m bm bn) (rev (tiles ?R ?C)) ?st0"
    by (rule loops_in_range_tiles)
  also have "\<dots> = fold (loop_body ?t bm bn) (rev (tiles ?R ?C)) ?st0"
  proof (rule fold_cong_on)
    fix c assume "c \<in> set (rev (tiles ?R ?C))"
    then have "fst c < ?R" "snd c < ?C" by (simp_all add: set_tiles)
    then have "mask_block m bm bn c = mask_block ?t bm bn c"
      by (rule mask_block_truncated [symmetric])
    then show "loop_body m bm bn c = loop_body ?t bm bn c"
      by (rule loop_body_cong)
  qed
  also have "\<dots> = loops_in_range ?t bm bn ?st0"
    by (simp add: loops_in_range_tiles tR tC)
  also have "\<dots> = loops ?t bm bn ?st0"
    using out_t
    by (intro loops_eq_loops_in_range [symmetric]) (auto simp: tR tC grids_shaped_init)
  finally have "loops m bm bn ?st0 = loops ?t bm bn ?st0" .
  then show ?thesis
    by (simp add: sparsify_mask_def Let_def bs truncated_fields(1) tR tC)
qed

theorem sparsify_mask_truncates_witness:
  "valid_array m3 \<and> 0 < fst (2 :: nat, 2 :: nat) \<and> fst (2 :: nat, 2 :: nat) \<le> nrows m3
   \<and> 0 < snd (2 :: nat, 2 :: nat) \<and> snd (2 :: nat, 2 :: nat) \<le> ncols m3
   \<and> leftover_zero m3 2 2
   \<and> truncated m3 2 2 = \<lparr>dtype = Int32, nrows = 2, ncols = 2, elems = [[1, 1], [1, 1]]\<rparr>
   \<and> sparsify_mask m3 (2, 2) = sparsify_mask (truncated m3 2 2) (2, 2)"
proof -
  have v: "valid_array m3"
    by (simp add: valid_array_def valid_elem_def m3_def)
  have lz: "leftover_zero m3 (fst (2 :: nat, 2 :: nat)) (snd (2 :: nat, 2 :: nat))"
    by (simp add: leftover_zero_def jnp_any_def slice2_def m3_def)
  have t: "truncated m3 2 2 = \<lparr>dtype = Int32, nrows = 2, ncols = 2, elems = [[1, 1], [1, 1]]\<rparr>"
    by (simp add: truncated_def slice2_def m3_def)
  have b: "0 < fst (2 :: nat, 2 :: nat)" "fst (2 :: nat, 2 :: nat) \<le> nrows m3"
    "0 < snd (2 :: nat, 2 :: nat)" "snd (2 :: nat, 2 :: nat) \<le> ncols m3"
    by (simp_all add: m3_def)
  show ?thesis
    using v lz t b sparsify_mask_truncates [OF v b lz] by simp
qed

section \<open>Blocks that are printed in full print differently\<close>

lemma str_nat_unfold:
  "n < 10 \<Longrightarrow> str_nat n = [char_of (48 + n)]"
  "\<not> n < 10 \<Longrightarrow> str_nat n = str_nat (n div 10) @ [char_of (48 + n mod 10)]"
  by (subst str_nat.simps, simp)+

lemma str_nat_chars: "c \<in> set (str_nat n) \<Longrightarrow> 48 \<le> (of_char c :: nat) \<and> (of_char c :: nat) \<le> 57"
proof (induction n rule: str_nat.induct)
  case (1 n)
  show ?case
  proof (cases "n < 10")
    case True
    then have "c = char_of (48 + n)" using 1(2) by (simp add: str_nat_unfold)
    then show ?thesis using True by simp
  next
    case False
    then have "c \<in> set (str_nat (n div 10)) \<or> c = char_of (48 + n mod 10)"
      using 1(2) by (auto simp: str_nat_unfold)
    then show ?thesis
    proof
      assume "c \<in> set (str_nat (n div 10))"
      then show ?thesis using 1(1) False by simp
    next
      assume c: "c = char_of (48 + n mod 10)"
      have "n mod 10 < 10" by simp
      then have "(48 + n mod 10) mod 256 = 48 + n mod 10" by simp
      then show ?thesis unfolding c of_char_of by simp
    qed
  qed
qed

lemma str_nat_nonempty: "str_nat n \<noteq> []"
  by (subst str_nat.simps) simp

lemma str_nat_inj: "str_nat n = str_nat k \<Longrightarrow> n = k"
proof (induction n arbitrary: k rule: str_nat.induct)
  case (1 n)
  show ?case
  proof (cases "n < 10")
    case True
    then have n: "str_nat n = [char_of (48 + n)]" by (simp add: str_nat_unfold)
    show ?thesis
    proof (cases "k < 10")
      case k: True
      then have "char_of (48 + n) = (char_of (48 + k) :: char)"
        using 1(2) n by (simp add: str_nat_unfold)
      then have "(48 + n) mod 256 = (48 + k) mod 256" by simp
      then show ?thesis using True k by simp
    next
      case False
      then have "str_nat k = str_nat (k div 10) @ [char_of (48 + k mod 10)]"
        by (simp add: str_nat_unfold)
      then have "str_nat (k div 10) = []" using 1(2) n by simp
      then show ?thesis using str_nat_nonempty by blast
    qed
  next
    case False
    then have n: "str_nat n = str_nat (n div 10) @ [char_of (48 + n mod 10)]"
      by (simp add: str_nat_unfold)
    show ?thesis
    proof (cases "k < 10")
      case True
      then have "str_nat k = [char_of (48 + k)]" by (simp add: str_nat_unfold)
      then have "str_nat (n div 10) = []" using 1(2) n by simp
      then show ?thesis using str_nat_nonempty by blast
    next
      case k: False
      then have "str_nat k = str_nat (k div 10) @ [char_of (48 + k mod 10)]"
        by (simp add: str_nat_unfold)
      then have e: "str_nat (n div 10) = str_nat (k div 10)"
        "char_of (48 + n mod 10) = (char_of (48 + k mod 10) :: char)"
        using 1(2) n by simp_all
      have "n div 10 = k div 10" using 1(1) [OF False e(1)] .
      moreover have "(48 + n mod 10) mod 256 = (48 + k mod 10) mod 256"
        using e(2) by simp
      then have "n mod 10 = k mod 10"
        by (simp add: mod_less [of "48 + n mod 10" 256] mod_less [of "48 + k mod 10" 256])
      ultimately show ?thesis by (metis div_mult_mod_eq)
    qed
  qed
qed

lemma str_int_inj: "str_int v = str_int w \<Longrightarrow> v = w"
proof -
  assume e: "str_int v = str_int w"
  have nodash: "hd (str_nat n) \<noteq> CHR ''-''" for n
  proof -
    have "hd (str_nat n) \<in> set (str_nat n)" using str_nat_nonempty by simp
    then have "48 \<le> (of_char (hd (str_nat n)) :: nat)" using str_nat_chars by blast
    then show ?thesis by auto
  qed
  show ?thesis
  proof (cases "v < 0"; cases "w < 0")
    assume "v < 0" "w < 0"
    then have "str_nat (nat (- v)) = str_nat (nat (- w))" using e by (simp add: str_int_def)
    then have "nat (- v) = nat (- w)" by (rule str_nat_inj)
    then show ?thesis using \<open>v < 0\<close> \<open>w < 0\<close> by simp
  next
    assume "v < 0" "\<not> w < 0"
    then have "CHR ''-'' # str_nat (nat (- v)) = str_nat (nat w)" using e by (simp add: str_int_def)
    then have "hd (str_nat (nat w)) = CHR ''-''" by (metis list.sel(1))
    then show ?thesis using nodash by blast
  next
    assume "\<not> v < 0" "w < 0"
    then have "str_nat (nat v) = CHR ''-'' # str_nat (nat (- w))" using e by (simp add: str_int_def)
    then have "hd (str_nat (nat v)) = CHR ''-''" by (metis list.sel(1))
    then show ?thesis using nodash by blast
  next
    assume "\<not> v < 0" "\<not> w < 0"
    then have "str_nat (nat v) = str_nat (nat w)" using e by (simp add: str_int_def)
    then have "nat v = nat w" by (rule str_nat_inj)
    then show ?thesis using \<open>\<not> v < 0\<close> \<open>\<not> w < 0\<close> by simp
  qed
qed

lemma str_int_chars:
  "c \<in> set (str_int v) \<Longrightarrow> c = CHR ''-'' \<or> 48 \<le> (of_char c :: nat) \<and> (of_char c :: nat) \<le> 57"
  using str_nat_chars by (auto simp: str_int_def split: if_splits)

lemma str_elem_inj:
  "valid_elem dt v \<Longrightarrow> valid_elem dt w \<Longrightarrow> str_elem dt v = str_elem dt w \<Longrightarrow> v = w"
  by (cases dt) (auto simp: str_elem_def valid_elem_def dest: str_int_inj)

lemma str_elem_chars:
  "c \<in> set (str_elem dt v) \<Longrightarrow> c \<noteq> CHR '' '' \<and> c \<noteq> CHR 0x0A \<and> c \<noteq> CHR '']''"
proof (cases dt)
  case Bool
  assume "c \<in> set (str_elem dt v)"
  then show ?thesis using Bool by (auto simp: str_elem_def split: if_splits)
next
  case Int32
  assume "c \<in> set (str_elem dt v)"
  then have "c = CHR ''-'' \<or> 48 \<le> (of_char c :: nat) \<and> (of_char c :: nat) \<le> 57"
    using Int32 str_int_chars by (simp add: str_elem_def)
  then show ?thesis by auto
qed

lemma append_sep_inj:
  "c \<notin> set x \<Longrightarrow> c \<notin> set y \<Longrightarrow> x @ c # r = y @ c # r' \<Longrightarrow> x = y \<and> r = r'"
proof (induction x arbitrary: y)
  case Nil
  then show ?case by (cases y) auto
next
  case (Cons a x)
  then show ?case by (cases y) auto
qed

lemma set_join: "set (join sep ts) \<subseteq> set sep \<union> (\<Union>t \<in> set ts. set t)"
  by (induction sep ts rule: join.induct) auto

lemma join_inj:
  assumes "length ts = length us"
    and "\<forall>t \<in> set ts. c \<notin> set t" and "\<forall>t \<in> set us. c \<notin> set t"
    and "join (c # s) ts = join (c # s) us"
  shows "ts = us"
  using assms
proof (induction ts us rule: list_induct2)
  case Nil
  then show ?case by simp
next
  case (Cons t ts u us)
  note IH = Cons.IH and len = Cons.hyps and prems = Cons.prems
  have ct: "c \<notin> set t" and cu: "c \<notin> set u"
    using prems(1,2) by simp_all
  show ?case
  proof (cases ts)
    case Nil
    then have "us = []" using len by simp
    then show ?thesis using prems(3) Nil by simp
  next
    case ts: (Cons t' ts')
    then obtain u' us' where us: "us = u' # us'"
      using len by (cases us) auto
    have "join (c # s) (t # ts) = t @ c # (s @ join (c # s) ts)"
      unfolding ts by simp
    moreover have "join (c # s) (u # us) = u @ c # (s @ join (c # s) us)"
      unfolding us by simp
    ultimately have "t @ c # (s @ join (c # s) ts) = u @ c # (s @ join (c # s) us)"
      using prems(3) by simp
    then have "t = u \<and> s @ join (c # s) ts = s @ join (c # s) us"
      by (rule append_sep_inj [OF ct cu])
    then have tu: "t = u" and j: "join (c # s) ts = join (c # s) us"
      by simp_all
    have "ts = us"
      using prems(1,2) j by (intro IH) simp_all
    with tu show ?thesis by simp
  qed
qed

lemma str_row_full: "str_row False dt row = ''['' @ join '' '' (map (str_elem dt) row) @ '']''"
  by (simp add: str_row_def summarize_def)

lemma join_chars:
  assumes "c \<in> set (join sep ts)"
  shows "c \<in> set sep \<or> (\<exists>t \<in> set ts. c \<in> set t)"
  using set_join [of sep ts] assms by blast

lemma str_row_no_newline: "CHR 0x0A \<notin> set (str_row False dt row)"
proof
  assume "CHR 0x0A \<in> set (str_row False dt row)"
  then have "CHR 0x0A \<in> set (join '' '' (map (str_elem dt) row))"
    by (simp add: str_row_full)
  then have "\<exists>t \<in> set (map (str_elem dt) row). CHR 0x0A \<in> set t"
    using join_chars [of "CHR 0x0A" "'' ''" "map (str_elem dt) row"] by simp
  then obtain v where "CHR 0x0A \<in> set (str_elem dt v)" by auto
  then show False using str_elem_chars by blast
qed

lemma str_elem_no_space: "CHR '' '' \<notin> set (str_elem dt v)"
  using str_elem_chars by blast

lemma str_row_inj:
  assumes "length row = length row'"
    and "\<forall>v \<in> set row. valid_elem dt v" and "\<forall>v \<in> set row'. valid_elem dt v"
    and "str_row False dt row = str_row False dt row'"
  shows "row = row'"
proof -
  have eq: "join (CHR '' '' # []) (map (str_elem dt) row) = join (CHR '' '' # []) (map (str_elem dt) row')"
    using assms(4) by (simp add: str_row_full)
  have a1: "\<forall>t \<in> set (map (str_elem dt) row). CHR '' '' \<notin> set t"
    and a2: "\<forall>t \<in> set (map (str_elem dt) row'). CHR '' '' \<notin> set t"
    by (simp_all add: str_elem_no_space)
  have len: "length (map (str_elem dt) row) = length (map (str_elem dt) row')"
    using assms(1) by simp
  have "map (str_elem dt) row = map (str_elem dt) row'"
    by (rule join_inj [OF len a1 a2 eq])
  moreover have "inj_on (str_elem dt) (set row \<union> set row')"
  proof (rule inj_onI)
    fix v w assume "v \<in> set row \<union> set row'" "w \<in> set row \<union> set row'"
      and e: "str_elem dt v = str_elem dt w"
    then have "valid_elem dt v" "valid_elem dt w" using assms(2,3) by blast+
    then show "v = w" using e by (rule str_elem_inj)
  qed
  ultimately show ?thesis
    by (simp add: inj_on_map_eq_map)
qed

text \<open>Two arrays of the same element type and shape with at most \<open>threshold\<close> elements
  and the same printed form have the same elements.\<close>

lemma str_array_inj:
  assumes "dtype a = dtype b"
    and "nrows a * ncols a \<le> threshold" and "nrows b * ncols b \<le> threshold"
    and "length (elems a) = length (elems b)"
    and "\<forall>row \<in> set (elems a). length row = n \<and> (\<forall>v \<in> set row. valid_elem (dtype a) v)"
    and "\<forall>row \<in> set (elems b). length row = n \<and> (\<forall>v \<in> set row. valid_elem (dtype a) v)"
    and "str_array a = str_array b"
  shows "elems a = elems b"
proof -
  define f where "f = str_row False (dtype a)"
  have sa: "str_array a = ''['' @ join [CHR 0x0A, CHR '' ''] (map f (elems a)) @ '']''"
    using assms(2) by (simp add: str_array_def Let_def summarize_def f_def)
  have sb: "str_array b = ''['' @ join [CHR 0x0A, CHR '' ''] (map f (elems b)) @ '']''"
    using assms(1,3) by (simp add: str_array_def Let_def summarize_def f_def)
  have eq: "join (CHR 0x0A # [CHR '' '']) (map f (elems a)) =
      join (CHR 0x0A # [CHR '' '']) (map f (elems b))"
    using assms(7) unfolding sa sb by simp
  have a1: "\<forall>t \<in> set (map f (elems a)). CHR 0x0A \<notin> set t"
    and a2: "\<forall>t \<in> set (map f (elems b)). CHR 0x0A \<notin> set t"
    by (simp_all add: f_def str_row_no_newline)
  have len: "length (map f (elems a)) = length (map f (elems b))"
    using assms(4) by simp
  have "map f (elems a) = map f (elems b)"
    by (rule join_inj [OF len a1 a2 eq])
  moreover have "inj_on f (set (elems a) \<union> set (elems b))"
  proof (rule inj_onI)
    fix r r' assume r: "r \<in> set (elems a) \<union> set (elems b)" "r' \<in> set (elems a) \<union> set (elems b)"
      and e: "f r = f r'"
    have ok: "length x = n \<and> (\<forall>v \<in> set x. valid_elem (dtype a) v)"
      if "x \<in> set (elems a) \<union> set (elems b)" for x
      using that assms(5,6) by blast
    have "length r = length r'" using ok [OF r(1)] ok [OF r(2)] by simp
    moreover have "\<forall>v \<in> set r. valid_elem (dtype a) v" "\<forall>v \<in> set r'. valid_elem (dtype a) v"
      using ok [OF r(1)] ok [OF r(2)] by blast+
    ultimately show "r = r'"
      using e unfolding f_def by (rule str_row_inj)
  qed
  ultimately show ?thesis
    by (simp add: inj_on_map_eq_map)
qed

section \<open>The values of the grids at every tile\<close>

lemma stack_blocks:
  assumes "stack xs = Inr md" and "\<forall>x \<in> set xs. dtype x = dt"
  shows "length (elems3 md) = length xs"
    and "k < length xs \<Longrightarrow> block_at md k = xs ! k"
proof -
  obtain a as where xs: "xs = a # as"
    using assms(1) by (cases xs) (simp_all add: stack_def)
  have same: "\<forall>x \<in> set xs. nrows x = nrows a \<and> ncols x = ncols a"
    and md: "md = \<lparr>dtype3 = dtype a, shape3 = (length xs, nrows a, ncols a), elems3 = map elems xs\<rparr>"
    using assms(1) unfolding xs by (auto simp: stack_def list_all_iff split: if_splits)
  show "length (elems3 md) = length xs" by (simp add: md)
  show "block_at md k = xs ! k" if "k < length xs"
  proof -
    have "xs ! k \<in> set xs" using that by simp
    then have "nrows (xs ! k) = nrows a" "ncols (xs ! k) = ncols a" "dtype (xs ! k) = dtype a"
      using same assms(2) xs by auto
    then show ?thesis using that by (simp add: block_at_def md)
  qed
qed

lemma dtype_mask_block: "dtype (mask_block m bm bn c) = dtype m"
  by (simp add: mask_block_def slice2_def)

lemma astype_flag: "astype dt 0 = 0" "astype dt 1 = 1"
  by (cases dt; simp add: astype_def)+

lemma stack_printed:
  assumes "stack xs = Inr md" and "\<forall>x \<in> set xs. dtype x = dt"
  shows "printed md = map str_array xs"
proof (rule nth_equalityI)
  show "length (printed md) = length (map str_array xs)"
    by (simp add: printed_def stack_blocks(1) [OF assms])
  fix k assume "k < length (printed md)"
  then have k: "k < length xs" by (simp add: printed_def stack_blocks(1) [OF assms])
  then show "printed md ! k = map str_array xs ! k"
    by (simp add: printed_def stack_blocks [OF assms])
qed

lemma index_nth_distinct: "distinct xs \<Longrightarrow> k < length xs \<Longrightarrow> index xs (xs ! k) = Some k"
proof (induction xs arbitrary: k)
  case Nil
  then show ?case by simp
next
  case (Cons x xs)
  show ?case
  proof (cases k)
    case 0
    then show ?thesis by simp
  next
    case (Suc k')
    then have "xs ! k' \<in> set xs" using Cons.prems(2) by simp
    then have "x \<noteq> xs ! k'" using Cons.prems(1) by auto
    then show ?thesis using Suc Cons.IH [of k'] Cons.prems by simp
  qed
qed

text \<open>
  For a well-formed mask on which the function returns: the value of each grid at each
  tile of the grid, in terms of the first active tile among the tile itself and the
  tiles that follow it in forward order.
\<close>

lemma tile_values:
  assumes wf: "well_formed m (bm, bn)"
    and ret: "sparsify_mask m (bm, bn) = Inr (b, pm, p_i, p_j, md)"
    and ij: "i < nrows m div bm" "j < ncols m div bn"
  defines "nxt \<equiv> List.find (active m bm bn)
                    ((i, j) # tiles_after (nrows m div bm) (ncols m div bn) (i, j))"
  shows "at_get b i j = (if active m bm bn (i, j) then 1 else 0)"
    and "at_get p_i i j = astype (dtype m)
           (case nxt of None \<Rightarrow> int (nrows m div bm) - 1 | Some c' \<Rightarrow> int (fst c'))"
    and "at_get p_j i j = astype (dtype m)
           (case nxt of None \<Rightarrow> int (ncols m div bn) - 1 | Some c' \<Rightarrow> int (snd c'))"
    and "nxt = None \<Longrightarrow> at_get pm i j = 0"
    and "nxt = Some c' \<Longrightarrow>
           \<exists>k. index (printed md) (str_array (mask_block m bm bn c')) = Some k
              \<and> at_get pm i j = astype (dtype m) (int k)"
    and "distinct (printed md)"
proof -
  let ?R = "nrows m div bm" and ?C = "ncols m div bn"
  define st0 where "st0 = init_state (dtype m) ?R ?C"
  define F where "F = fold (loop_body m bm bn) (rev (tiles ?R ?C)) st0"
  define S where "S = fold (loop_body m bm bn) (rev (tiles_after ?R ?C (i, j)) @ [(i, j)]) st0"
  have loops: "loops m bm bn st0 = F"
    unfolding F_def st0_def by (rule well_formed_pass [OF wf])
  have res: "b = block_mask F" "pm = prefetch_mask F" "p_i = prefetch_i F" "p_j = prefetch_j F"
    and stk: "stack (mask_data F) = Inr md"
    using sparsify_mask_Inr [OF ret] unfolding loops [unfolded st0_def] by simp_all
  have ij': "fst (i, j) < ?R" "snd (i, j) < ?C" using ij by simp_all
  have pv: "at_get (block_mask F) i j = astype (dtype m) (if active m bm bn (i, j) then 1 else 0)"
    "at_get (prefetch_mask F) i j = astype (dtype m) (next_mask_type_idx S)"
    "\<exists>ks. mask_types_finder F = mask_types_finder S @ ks"
    using pass_values(1,2,5) [OF ij', of m bm bn "dtype m"]
    unfolding F_def S_def st0_def by simp_all
  show "at_get b i j = (if active m bm bn (i, j) then 1 else 0)"
    unfolding res pv by (simp add: astype_flag)
  show "at_get p_i i j = astype (dtype m)
           (case nxt of None \<Rightarrow> int ?R - 1 | Some c' \<Rightarrow> int (fst c'))"
    unfolding res F_def st0_def nxt_def
    using pass_next(1) [OF ij', of m bm bn "dtype m"] by (simp del: find.simps)
  show "at_get p_j i j = astype (dtype m)
           (case nxt of None \<Rightarrow> int ?C - 1 | Some c' \<Rightarrow> int (snd c'))"
    unfolding res F_def st0_def nxt_def
    using pass_next(2) [OF ij', of m bm bn "dtype m"] by (simp del: find.simps)
  have nxt: "nxt = List.find (active m bm bn) (rev (rev (tiles_after ?R ?C (i, j)) @ [(i, j)]))"
    by (simp add: nxt_def)
  have ok: "finder_ok F"
    unfolding F_def st0_def by (intro finder_ok_fold finder_ok_init)
  have dts: "\<forall>x \<in> set (mask_data F). dtype x = dtype m"
  proof
    fix x assume "x \<in> set (mask_data F)"
    from fold_data_blocks [OF this [unfolded F_def]]
    show "dtype x = dtype m"
      by (auto simp: st0_def init_state_fields dtype_mask_block)
  qed
  have fin: "mask_types_finder F = map str_array (mask_data F)"
    and dist: "distinct (mask_types_finder F)"
    using ok unfolding finder_ok_def by blast+
  have pr: "printed md = mask_types_finder F"
    unfolding fin by (rule stack_printed [OF stk dts])
  show "distinct (printed md)"
    unfolding pr by (rule dist)
  show "at_get pm i j = 0" if nx: "nxt = None"
  proof -
    have "next_mask_type_idx S = next_mask_type_idx st0"
      unfolding S_def using nx [unfolded nxt] by (rule idx_fold_None)
    then show ?thesis
      unfolding res pv by (simp add: st0_def init_state_fields astype_flag)
  qed
  show "\<exists>k. index (printed md) (str_array (mask_block m bm bn c')) = Some k
              \<and> at_get pm i j = astype (dtype m) (int k)" if nx: "nxt = Some c'"
  proof -
    from idx_fold_Some [OF nx [unfolded nxt], of st0]
    obtain k where k: "next_mask_type_idx S = int k" "k < length (mask_types_finder S)"
        "mask_types_finder S ! k = str_array (mask_block m bm bn c')"
      unfolding S_def by blast
    obtain ks where ks: "mask_types_finder F = mask_types_finder S @ ks"
      using pv(3) by blast
    have kF: "k < length (mask_types_finder F)"
      "mask_types_finder F ! k = str_array (mask_block m bm bn c')"
      using k(2,3) ks by (simp_all add: nth_append)
    have "index (mask_types_finder F) (mask_types_finder F ! k) = Some k"
      using dist kF(1) by (rule index_nth_distinct)
    then have "index (printed md) (str_array (mask_block m bm bn c')) = Some k"
      unfolding pr kF(2) .
    then show ?thesis unfolding res pv k(1) by blast
  qed
qed

section \<open>The element type of the grids\<close>

lemma astype_Bool_nat: "astype Bool (int k) = (if k = 0 then 0 else 1)"
  by (simp add: astype_def)

lemma astype_Bool_sentinel: "0 < R \<Longrightarrow> astype Bool (int R - 1) = (if R = 1 then 0 else 1)"
  by (auto simp: astype_def)

text \<open>
  C10. The four grids that \<open>sparsify_mask\<close> returns have the element type of the mask.
  When the mask is boolean, as the docstring asks, the grids \<open>prefetch_mask\<close>,
  \<open>prefetch_i\<close> and \<open>prefetch_j\<close> are boolean too, and at every tile of the grid of a
  well-formed mask, active or not, each of them holds 0 when the value that the loops
  carry there is 0 and 1 when it is 1 or more. The carried values are those of the first
  active tile among the tile and the tiles after it: the position \<open>k\<close> of the printed form
  of its block in \<open>mask_data\<close> and its coordinates; when there is no such tile they are the
  initial index 0 and the last coordinates of the grid. So every index or coordinate
  greater than 1 is stored as 1.
\<close>

theorem grids_take_mask_dtype:
  assumes "valid_array m"
    and "0 < tile_rows m block_shape" and "0 < tile_cols m block_shape"
    and "sparsify_mask m block_shape = Inr (b, pm, p_i, p_j, md)"
  shows "dtype b = dtype m \<and> dtype pm = dtype m \<and> dtype p_i = dtype m \<and> dtype p_j = dtype m
     \<and> (dtype m = Bool \<longrightarrow> bool_valued pm \<and> bool_valued p_i \<and> bool_valued p_j
          \<and> (well_formed m block_shape \<longrightarrow>
              (\<forall>i j. i < tile_rows m block_shape \<and> j < tile_cols m block_shape \<longrightarrow>
                 (case next_tile m block_shape (i, j) of
                    None \<Rightarrow>
                      at_get pm i j = 0
                      \<and> at_get p_i i j = (if tile_rows m block_shape = 1 then 0 else 1)
                      \<and> at_get p_j i j = (if tile_cols m block_shape = 1 then 0 else 1)
                  | Some c' \<Rightarrow>
                      (\<exists>k. index (printed md)
                              (str_array (mask_block m (fst block_shape) (snd block_shape) c'))
                            = Some k
                         \<and> at_get pm i j = (if k = 0 then 0 else 1))
                      \<and> at_get p_i i j = (if fst c' = 0 then 0 else 1)
                      \<and> at_get p_j i j = (if snd c' = 0 then 0 else 1)))))"
proof -
  obtain bm bn where bs: "block_shape = (bm, bn)" by (cases block_shape)
  let ?R = "nrows m div bm" and ?C = "ncols m div bn"
  note ret = assms(4) [unfolded bs]
  define F where "F = loops m bm bn (init_state (dtype m) ?R ?C)"
  have res: "b = block_mask F" "pm = prefetch_mask F" "p_i = prefetch_i F" "p_j = prefetch_j F"
    using sparsify_mask_Inr [OF ret] by (simp_all add: F_def)
  have F: "F = fold (loop_body m bm bn) (scan ?R ?C) (init_state (dtype m) ?R ?C)"
    by (simp add: F_def loops_scan)
  have dt: "dtype b = dtype m" "dtype pm = dtype m" "dtype p_i = dtype m" "dtype p_j = dtype m"
    by (simp_all add: res F dtype_fold init_state_fields)
  have bv: "bool_valued pm \<and> bool_valued p_i \<and> bool_valued p_j" if "dtype m = Bool"
    unfolding res F that by (intro conjI bool_valued_fold bool_valued_init)
  have vals: "case next_tile m (bm, bn) (i, j) of
        None \<Rightarrow> at_get pm i j = 0
          \<and> at_get p_i i j = (if ?R = 1 then 0 else 1)
          \<and> at_get p_j i j = (if ?C = 1 then 0 else 1)
      | Some c' \<Rightarrow>
          (\<exists>k. index (printed md) (str_array (mask_block m bm bn c')) = Some k
             \<and> at_get pm i j = (if k = 0 then 0 else 1))
          \<and> at_get p_i i j = (if fst c' = 0 then 0 else 1)
          \<and> at_get p_j i j = (if snd c' = 0 then 0 else 1)"
    if bool: "dtype m = Bool" and wf: "well_formed m (bm, bn)" and ij: "i < ?R" "j < ?C" for i j
  proof -
    define nxt where "nxt = List.find (active m bm bn) ((i, j) # tiles_after ?R ?C (i, j))"
    have nt: "next_tile m (bm, bn) (i, j) = nxt"
      by (simp add: next_tile_def nxt_def tile_rows_def tile_cols_def del: find.simps)
    note tv = tile_values [OF wf ret ij, folded nxt_def, unfolded bool]
    show ?thesis
    proof (cases nxt)
      case None
      have "at_get p_i i j = astype Bool (int ?R - 1)" "at_get p_j i j = astype Bool (int ?C - 1)"
        using tv(2,3) None by simp_all
      moreover have "0 < ?R" "0 < ?C" using ij by simp_all
      ultimately show ?thesis
        using tv(4) [OF None] by (simp add: nt None astype_Bool_sentinel)
    next
      case (Some c')
      have "at_get p_i i j = astype Bool (int (fst c'))" "at_get p_j i j = astype Bool (int (snd c'))"
        using tv(2,3) Some by simp_all
      then show ?thesis
        using tv(5) [OF Some] by (simp add: nt Some astype_Bool_nat)
    qed
  qed
  show ?thesis
    unfolding bs tile_rows_def tile_cols_def fst_conv snd_conv
    using dt bv vals [unfolded tile_rows_def tile_cols_def fst_conv snd_conv] by blast
qed


theorem grids_take_mask_dtype_witness:
  "sparsify_mask m_bool4 (1, 2) =
     Inr (\<lparr>dtype = Bool, nrows = 1, ncols = 4, elems = [[1, 0, 1, 1]]\<rparr>,
          \<lparr>dtype = Bool, nrows = 1, ncols = 4, elems = [[1, 1, 1, 0]]\<rparr>,
          \<lparr>dtype = Bool, nrows = 1, ncols = 4, elems = [[0, 0, 0, 0]]\<rparr>,
          \<lparr>dtype = Bool, nrows = 1, ncols = 4, elems = [[0, 1, 1, 1]]\<rparr>,
          \<lparr>dtype3 = Bool, shape3 = (3, 1, 2), elems3 = [[[1, 1]], [[0, 1]], [[1, 0]]]\<rparr>)
   \<and> valid_array m_bool4 \<and> 0 < tile_rows m_bool4 (1, 2) \<and> 0 < tile_cols m_bool4 (1, 2)
   \<and> dtype m_bool4 = Bool \<and> well_formed m_bool4 (1, 2)
   \<and> next_tile m_bool4 (1, 2) (0, 0) = Some (0, 0)
   \<and> index (printed \<lparr>dtype3 = Bool, shape3 = (3, 1, 2), elems3 = [[[1, 1]], [[0, 1]], [[1, 0]]]\<rparr>)
        (str_array (mask_block m_bool4 1 2 (0, 0))) = Some 2
   \<and> at_get \<lparr>dtype = Bool, nrows = 1, ncols = 4, elems = [[1, 1, 1, 0]]\<rparr> 0 0 = 1
   \<and> next_tile m_bool4 (1, 2) (0, 1) = Some (0, 2)
   \<and> at_get \<lparr>dtype = Bool, nrows = 1, ncols = 4, elems = [[0, 1, 1, 1]]\<rparr> 0 1 = 1
   \<and> dtype \<lparr>dtype = Bool, nrows = 1, ncols = 4, elems = [[1, 1, 1, 0]]\<rparr> = dtype m_bool4
   \<and> bool_valued \<lparr>dtype = Bool, nrows = 1, ncols = 4, elems = [[1, 1, 1, 0]]\<rparr>"
proof -
  have val: "sparsify_mask m_bool4 (1, 2) =
     Inr (\<lparr>dtype = Bool, nrows = 1, ncols = 4, elems = [[1, 0, 1, 1]]\<rparr>,
          \<lparr>dtype = Bool, nrows = 1, ncols = 4, elems = [[1, 1, 1, 0]]\<rparr>,
          \<lparr>dtype = Bool, nrows = 1, ncols = 4, elems = [[0, 0, 0, 0]]\<rparr>,
          \<lparr>dtype = Bool, nrows = 1, ncols = 4, elems = [[0, 1, 1, 1]]\<rparr>,
          \<lparr>dtype3 = Bool, shape3 = (3, 1, 2), elems3 = [[[1, 1]], [[0, 1]], [[1, 0]]]\<rparr>)"
    by code_simp
  have va: "valid_array m_bool4"
    by (simp add: valid_array_def valid_elem_def m_bool4_def)
  have tr: "0 < tile_rows m_bool4 (1, 2)" and tc: "0 < tile_cols m_bool4 (1, 2)"
    by (simp_all add: tile_rows_def tile_cols_def m_bool4_def)
  have lt: "0 < tile_rows m_bool4 (1, 2) \<and> 0 < tile_cols m_bool4 (1, 2)"
    "0 < tile_rows m_bool4 (1, 2) \<and> 1 < tile_cols m_bool4 (1, 2)"
    by (simp_all add: tile_rows_def tile_cols_def m_bool4_def)
  have b: "dtype m_bool4 = Bool" by (simp add: m_bool4_def)
  have wf: "well_formed m_bool4 (1, 2)"
    by (simp add: well_formed_def valid_array_def valid_elem_def m_bool4_def)
  have n0: "next_tile m_bool4 (1, 2) (0, 0) = Some (0, 0)" by code_simp
  have n1: "next_tile m_bool4 (1, 2) (0, 1) = Some (0, 2)" by code_simp
  have idx: "index (printed \<lparr>dtype3 = Bool, shape3 = (3, 1, 2), elems3 = [[[1, 1]], [[0, 1]], [[1, 0]]]\<rparr>)
        (str_array (mask_block m_bool4 1 2 (0, 0))) = Some 2"
    by code_simp
  note T = grids_take_mask_dtype [OF va tr tc val]
  note dt = T [THEN conjunct2, THEN conjunct1]
  note B = T [THEN conjunct2, THEN conjunct2, THEN conjunct2, THEN conjunct2, THEN mp, OF b]
  note bv = B [THEN conjunct1]
  note A = B [THEN conjunct2, THEN conjunct2, THEN conjunct2, THEN mp, OF wf]
  note A0 = A [THEN spec [where x = 0], THEN spec [where x = 0], THEN mp, OF lt(1),
      unfolded n0 option.case fst_conv snd_conv idx]
  note A1 = A [THEN spec [where x = 0], THEN spec [where x = 1], THEN mp, OF lt(2),
      unfolded n1 option.case fst_conv snd_conv]
  have v0: "at_get \<lparr>dtype = Bool, nrows = 1, ncols = 4, elems = [[1, 1, 1, 0]]\<rparr> 0 0 = 1"
    using A0 [THEN conjunct1] by auto
  have v1: "at_get \<lparr>dtype = Bool, nrows = 1, ncols = 4, elems = [[0, 1, 1, 1]]\<rparr> 0 1 = 1"
    using A1 [THEN conjunct2, THEN conjunct2] by simp
  from val va tr tc b wf n0 idx v0 n1 v1 dt bv show ?thesis
    by (intro conjI)
qed

section \<open>The blocks of \<open>mask_data\<close> and their printed forms\<close>

lemma mask_block_rows:
  assumes wf: "well_formed m (bm, bn)" and c: "fst c < nrows m div bm" "snd c < ncols m div bn"
  shows "length (elems (mask_block m bm bn c)) = bm"
    and "\<forall>row \<in> set (elems (mask_block m bm bn c)).
           length row = bn \<and> (\<forall>v \<in> set row. valid_elem (dtype m) v)"
proof -
  have M: "nrows m div bm * bm = nrows m" and N: "ncols m div bn * bn = ncols m"
    using wf by (auto simp: well_formed_def)
  have "(fst c + 1) * bm \<le> nrows m div bm * bm" "(snd c + 1) * bn \<le> ncols m div bn * bn"
    using c by (simp_all add: Suc_leI mult_le_mono1 del: mult_Suc)
  then have le: "(fst c + 1) * bm \<le> nrows m" "(snd c + 1) * bn \<le> ncols m"
    using M N by simp_all
  have va: "length (elems m) = nrows m"
    "\<forall>row \<in> set (elems m). length row = ncols m \<and> (\<forall>v \<in> set row. valid_elem (dtype m) v)"
    using wf by (auto simp: well_formed_def valid_array_def list_all_iff)
  have d: "(fst c + 1) * bm - fst c * bm = bm" "(snd c + 1) * bn - snd c * bn = bn"
    by simp_all
  have el: "elems (mask_block m bm bn c) =
      map (\<lambda>row. take bn (drop (snd c * bn) row)) (take bm (drop (fst c * bm) (elems m)))"
    unfolding mask_block_def slice2_def d by simp
  show "length (elems (mask_block m bm bn c)) = bm"
    using le(1) va(1) by (simp add: el)
  show "\<forall>row \<in> set (elems (mask_block m bm bn c)).
           length row = bn \<and> (\<forall>v \<in> set row. valid_elem (dtype m) v)"
  proof
    fix row assume "row \<in> set (elems (mask_block m bm bn c))"
    then obtain r where r: "r \<in> set (take bm (drop (fst c * bm) (elems m)))"
        and row: "row = take bn (drop (snd c * bn) r)"
      unfolding el by auto
    have "r \<in> set (elems m)"
      using r by (meson in_set_dropD in_set_takeD)
    then have lr: "length r = ncols m" and vr: "\<forall>v \<in> set r. valid_elem (dtype m) v"
      using va(2) by auto
    have "length row = bn" using le(2) lr by (simp add: row)
    moreover have "\<forall>v \<in> set row. valid_elem (dtype m) v"
      using vr unfolding row by (meson in_set_dropD in_set_takeD)
    ultimately show "length row = bn \<and> (\<forall>v \<in> set row. valid_elem (dtype m) v)" ..
  qed
qed

text \<open>Two blocks of at most \<open>threshold\<close> elements with the same printed form are the
  same block.\<close>

lemma mask_block_printed_inj:
  assumes wf: "well_formed m (bm, bn)" and small: "bm * bn \<le> threshold"
    and c: "fst c < nrows m div bm" "snd c < ncols m div bn"
    and c': "fst c' < nrows m div bm" "snd c' < ncols m div bn"
    and eq: "str_array (mask_block m bm bn c) = str_array (mask_block m bm bn c')"
  shows "mask_block m bm bn c = mask_block m bm bn c'"
proof -
  let ?a = "mask_block m bm bn c" and ?b = "mask_block m bm bn c'"
  have dt: "dtype ?a = dtype ?b" by (simp add: dtype_mask_block)
  have sh: "nrows ?a = bm" "ncols ?a = bn" "nrows ?b = bm" "ncols ?b = bn"
    using mask_block_shape [OF wf c] mask_block_shape [OF wf c'] by simp_all
  have "elems ?a = elems ?b"
  proof (rule str_array_inj [OF dt _ _ _ _ _ eq])
    show "nrows ?a * ncols ?a \<le> threshold" "nrows ?b * ncols ?b \<le> threshold"
      using small by (simp_all add: sh)
    show "length (elems ?a) = length (elems ?b)"
      by (simp add: mask_block_rows(1) [OF wf c] mask_block_rows(1) [OF wf c'])
    show "\<forall>row \<in> set (elems ?a). length row = bn \<and> (\<forall>v \<in> set row. valid_elem (dtype ?a) v)"
      using mask_block_rows(2) [OF wf c] by (simp add: dtype_mask_block)
    show "\<forall>row \<in> set (elems ?b). length row = bn \<and> (\<forall>v \<in> set row. valid_elem (dtype ?a) v)"
      using mask_block_rows(2) [OF wf c'] by (simp add: dtype_mask_block)
  qed
  then show ?thesis
    using dt sh by (intro array2.equality) simp_all
qed

text \<open>Every block of the returned \<open>mask_data\<close> is the block of an active tile of the grid.\<close>

lemma md_entry:
  assumes wf: "well_formed m (bm, bn)"
    and ret: "sparsify_mask m (bm, bn) = Inr (b, pm, p_i, p_j, md)"
    and k: "k < length (elems3 md)"
  shows "\<exists>c. fst c < nrows m div bm \<and> snd c < ncols m div bn \<and> active m bm bn c
             \<and> block_at md k = mask_block m bm bn c"
proof -
  let ?R = "nrows m div bm" and ?C = "ncols m div bn"
  define st0 where "st0 = init_state (dtype m) ?R ?C"
  define F where "F = fold (loop_body m bm bn) (rev (tiles ?R ?C)) st0"
  have loops: "loops m bm bn st0 = F"
    unfolding F_def st0_def by (rule well_formed_pass [OF wf])
  have stk: "stack (mask_data F) = Inr md"
    using sparsify_mask_Inr [OF ret] unfolding loops [unfolded st0_def] by simp
  have blocks: "\<exists>c \<in> set (tiles ?R ?C). active m bm bn c \<and> x = mask_block m bm bn c"
    if "x \<in> set (mask_data F)" for x
    using fold_data_blocks [OF that [unfolded F_def]]
    by (auto simp: st0_def init_state_fields)
  have dts: "\<forall>x \<in> set (mask_data F). dtype x = dtype m"
  proof
    fix x assume "x \<in> set (mask_data F)"
    from blocks [OF this] show "dtype x = dtype m"
      by (auto simp: dtype_mask_block)
  qed
  have len: "length (elems3 md) = length (mask_data F)"
    by (rule stack_blocks(1) [OF stk dts])
  then have kF: "k < length (mask_data F)" using k by simp
  have at: "block_at md k = mask_data F ! k"
    by (rule stack_blocks(2) [OF stk dts kF])
  have "mask_data F ! k \<in> set (mask_data F)" using kF by simp
  from blocks [OF this] obtain c where c: "c \<in> set (tiles ?R ?C)" "active m bm bn c"
      "mask_data F ! k = mask_block m bm bn c"
    by blast
  have "fst c < ?R \<and> snd c < ?C" using c(1) by (auto simp: set_tiles)
  then have "fst c < ?R \<and> snd c < ?C \<and> active m bm bn c
      \<and> block_at md k = mask_block m bm bn c"
    using c(2,3) at by simp
  then show ?thesis ..
qed

text \<open>When blocks have at most \<open>threshold\<close> elements, the position of a block's printed
  form in \<open>mask_data\<close> is the position of the block itself.\<close>

lemma index_printed_block:
  assumes wf: "well_formed m (bm, bn)" and small: "bm * bn \<le> threshold"
    and ret: "sparsify_mask m (bm, bn) = Inr (b, pm, p_i, p_j, md)"
    and c: "fst c < nrows m div bm" "snd c < ncols m div bn"
    and idx: "index (printed md) (str_array (mask_block m bm bn c)) = Some k"
  shows "k < length (elems3 md) \<and> block_at md k = mask_block m bm bn c"
proof -
  from index_Some [OF idx] have k: "k < length (elems3 md)"
    and pk': "printed md ! k = str_array (mask_block m bm bn c)"
    by (simp_all add: printed_def)
  have pk: "str_array (block_at md k) = str_array (mask_block m bm bn c)"
    using pk' k by (simp add: printed_def)
  from md_entry [OF wf ret k] obtain c' where c': "fst c' < nrows m div bm"
      "snd c' < ncols m div bn" "block_at md k = mask_block m bm bn c'"
    by blast
  have "mask_block m bm bn c' = mask_block m bm bn c"
    using pk unfolding c'(3) by (rule mask_block_printed_inj [OF wf small c'(1,2) c])
  then show ?thesis using k c'(3) by simp
qed

section \<open>Coverage\<close>

lemma astype_Int32: "astype Int32 v = v"
  by (simp add: astype_def)

text \<open>
  C4. The claim is that on a well-formed mask with an active tile every tile is either
  active, with \<open>prefetch_i\<close> and \<open>prefetch_j\<close> pointing to itself and \<open>prefetch_mask\<close> to
  its own block in \<open>mask_data\<close>, or inactive, with \<open>prefetch_i\<close> and \<open>prefetch_j\<close>
  pointing to an active tile. On the integer mask \<open>m_corner\<close>, whose only active tile is
  \<open>(0, 0)\<close>, the inactive tile \<open>(1, 1)\<close> comes after every active tile: the function
  stores there the initial coordinates \<open>(1, 1)\<close>, the last tile of the grid, which is
  that same inactive tile.
\<close>

theorem coverage_fails_after_last_active:
  "well_formed m_corner (2, 2) \<and> jnp_any m_corner
   \<and> sparsify_mask m_corner (2, 2) =
       Inr (\<lparr>dtype = Int32, nrows = 2, ncols = 2, elems = [[1, 0], [0, 0]]\<rparr>,
            \<lparr>dtype = Int32, nrows = 2, ncols = 2, elems = [[0, 0], [0, 0]]\<rparr>,
            \<lparr>dtype = Int32, nrows = 2, ncols = 2, elems = [[0, 1], [1, 1]]\<rparr>,
            \<lparr>dtype = Int32, nrows = 2, ncols = 2, elems = [[0, 1], [1, 1]]\<rparr>,
            \<lparr>dtype3 = Int32, shape3 = (1, 2, 2), elems3 = [[[1, 0], [0, 0]]]\<rparr>)
   \<and> at_get \<lparr>dtype = Int32, nrows = 2, ncols = 2, elems = [[1, 0], [0, 0]]\<rparr> 1 1 = 0
   \<and> at_get \<lparr>dtype = Int32, nrows = 2, ncols = 2, elems = [[0, 1], [1, 1]]\<rparr> 1 1 = 1
   \<and> \<not> active m_corner 2 2
         (nat (at_get \<lparr>dtype = Int32, nrows = 2, ncols = 2, elems = [[0, 1], [1, 1]]\<rparr> 1 1),
          nat (at_get \<lparr>dtype = Int32, nrows = 2, ncols = 2, elems = [[0, 1], [1, 1]]\<rparr> 1 1))"
proof -
  have 1: "well_formed m_corner (2, 2)"
    by (simp add: well_formed_def valid_array_def valid_elem_def m_corner_def)
  have 2: "jnp_any m_corner" by code_simp
  have 3: "sparsify_mask m_corner (2, 2) =
       Inr (\<lparr>dtype = Int32, nrows = 2, ncols = 2, elems = [[1, 0], [0, 0]]\<rparr>,
            \<lparr>dtype = Int32, nrows = 2, ncols = 2, elems = [[0, 0], [0, 0]]\<rparr>,
            \<lparr>dtype = Int32, nrows = 2, ncols = 2, elems = [[0, 1], [1, 1]]\<rparr>,
            \<lparr>dtype = Int32, nrows = 2, ncols = 2, elems = [[0, 1], [1, 1]]\<rparr>,
            \<lparr>dtype3 = Int32, shape3 = (1, 2, 2), elems3 = [[[1, 0], [0, 0]]]\<rparr>)"
    by code_simp
  have 4: "at_get \<lparr>dtype = Int32, nrows = 2, ncols = 2, elems = [[1, 0], [0, 0]]\<rparr> 1 1 = 0"
    by (simp add: at_get_def)
  have 5: "at_get \<lparr>dtype = Int32, nrows = 2, ncols = 2, elems = [[0, 1], [1, 1]]\<rparr> 1 1 = 1"
    by (simp add: at_get_def)
  have 6: "\<not> active m_corner 2 2
         (nat (at_get \<lparr>dtype = Int32, nrows = 2, ncols = 2, elems = [[0, 1], [1, 1]]\<rparr> 1 1),
          nat (at_get \<lparr>dtype = Int32, nrows = 2, ncols = 2, elems = [[0, 1], [1, 1]]\<rparr> 1 1))"
    by code_simp
  from 1 2 3 4 5 6 show ?thesis by (intro conjI)
qed

text \<open>
  C4, as the code has it. For a well-formed mask of 32-bit integers with an active tile,
  blocks of at most \<open>threshold\<close> elements and fewer than \<open>2 ^ 31\<close> tiles, the function
  returns, and at every tile of the grid exactly one of two cases holds. The tile is
  active: \<open>block_mask\<close> is 1, \<open>prefetch_i\<close> and \<open>prefetch_j\<close> hold its own coordinates
  and \<open>prefetch_mask\<close> holds the index of a block of \<open>mask_data\<close> that is its own block.
  Or the tile is inactive: \<open>block_mask\<close> is 0, and \<open>prefetch_i\<close> and \<open>prefetch_j\<close> hold the
  coordinates of the first active tile after it in forward order or, when no active tile
  comes after it, the last coordinates of the grid.
\<close>

theorem coverage_with_sentinel:
  assumes "well_formed m block_shape" and "jnp_any m" and "dtype m = Int32"
    and "fst block_shape * snd block_shape \<le> threshold"
    and "tile_rows m block_shape * tile_cols m block_shape < 2 ^ 31"
  shows "\<exists>b pm p_i p_j md. sparsify_mask m block_shape = Inr (b, pm, p_i, p_j, md) \<and>
     (\<forall>i j. i < tile_rows m block_shape \<and> j < tile_cols m block_shape \<longrightarrow>
        (if active m (fst block_shape) (snd block_shape) (i, j)
         then at_get b i j = 1 \<and> at_get p_i i j = int i \<and> at_get p_j i j = int j
           \<and> (\<exists>k < length (elems3 md). at_get pm i j = int k
                 \<and> block_at md k = mask_block m (fst block_shape) (snd block_shape) (i, j))
         else at_get b i j = 0
           \<and> (case List.find (active m (fst block_shape) (snd block_shape))
                      (tiles_after (tile_rows m block_shape) (tile_cols m block_shape) (i, j)) of
                 Some c' \<Rightarrow> at_get p_i i j = int (fst c') \<and> at_get p_j i j = int (snd c')
               | None \<Rightarrow> at_get p_i i j = int (tile_rows m block_shape) - 1
                         \<and> at_get p_j i j = int (tile_cols m block_shape) - 1)))"
proof -
  obtain bm bn where bs: "block_shape = (bm, bn)" by (cases block_shape)
  let ?R = "nrows m div bm" and ?C = "ncols m div bn"
  note wf = assms(1) [unfolded bs]
  have small: "bm * bn \<le> threshold" using assms(4) by (simp add: bs)
  from sparsify_mask_returns [OF wf assms(2)]
  obtain b pm p_i p_j md where ret: "sparsify_mask m (bm, bn) = Inr (b, pm, p_i, p_j, md)"
    by blast
  have tile: "if active m bm bn (i, j)
         then at_get b i j = 1 \<and> at_get p_i i j = int i \<and> at_get p_j i j = int j
           \<and> (\<exists>k < length (elems3 md). at_get pm i j = int k
                 \<and> block_at md k = mask_block m bm bn (i, j))
         else at_get b i j = 0
           \<and> (case List.find (active m bm bn) (tiles_after ?R ?C (i, j)) of
                 Some c' \<Rightarrow> at_get p_i i j = int (fst c') \<and> at_get p_j i j = int (snd c')
               | None \<Rightarrow> at_get p_i i j = int ?R - 1 \<and> at_get p_j i j = int ?C - 1)"
    if ij: "i < ?R" "j < ?C" for i j
  proof -
    define nxt where "nxt = List.find (active m bm bn) ((i, j) # tiles_after ?R ?C (i, j))"
    note tv = tile_values [OF wf ret ij, folded nxt_def, unfolded assms(3) astype_Int32]
    show ?thesis
    proof (cases "active m bm bn (i, j)")
      case True
      then have nx: "nxt = Some (i, j)" by (simp add: nxt_def)
      from tv(5) [OF nx] obtain k
        where k: "index (printed md) (str_array (mask_block m bm bn (i, j))) = Some k"
          "at_get pm i j = int k"
        by blast
      have ij': "fst (i, j) < ?R" "snd (i, j) < ?C" using ij by simp_all
      from index_printed_block [OF wf small ret ij' k(1)]
      have "k < length (elems3 md) \<and> at_get pm i j = int k
          \<and> block_at md k = mask_block m bm bn (i, j)"
        using k(2) by simp
      then have "\<exists>k < length (elems3 md). at_get pm i j = int k
          \<and> block_at md k = mask_block m bm bn (i, j)" ..
      moreover have "at_get b i j = 1" "at_get p_i i j = int i" "at_get p_j i j = int j"
        using tv(1,2,3) True by (simp_all add: nx)
      ultimately show ?thesis using True by simp
    next
      case False
      then have nx: "nxt = List.find (active m bm bn) (tiles_after ?R ?C (i, j))"
        by (simp add: nxt_def)
      have "at_get b i j = 0" using tv(1) False by simp
      moreover have "case List.find (active m bm bn) (tiles_after ?R ?C (i, j)) of
                 Some c' \<Rightarrow> at_get p_i i j = int (fst c') \<and> at_get p_j i j = int (snd c')
               | None \<Rightarrow> at_get p_i i j = int ?R - 1 \<and> at_get p_j i j = int ?C - 1"
        using tv(2,3) unfolding nx by (simp split: option.splits)
      ultimately show ?thesis using False by simp
    qed
  qed
  show ?thesis
    unfolding bs tile_rows_def tile_cols_def fst_conv snd_conv
    using ret tile by blast
qed


theorem coverage_with_sentinel_witness:
  "well_formed m1 (2, 2) \<and> jnp_any m1 \<and> dtype m1 = Int32
   \<and> fst (2 :: nat, 2 :: nat) * snd (2 :: nat, 2 :: nat) \<le> threshold
   \<and> tile_rows m1 (2, 2) * tile_cols m1 (2, 2) < 2 ^ 31
   \<and> sparsify_mask m1 (2, 2) =
       Inr (\<lparr>dtype = Int32, nrows = 2, ncols = 2, elems = [[1, 0], [0, 1]]\<rparr>,
            \<lparr>dtype = Int32, nrows = 2, ncols = 2, elems = [[1, 0], [0, 0]]\<rparr>,
            \<lparr>dtype = Int32, nrows = 2, ncols = 2, elems = [[0, 1], [1, 1]]\<rparr>,
            \<lparr>dtype = Int32, nrows = 2, ncols = 2, elems = [[0, 1], [1, 1]]\<rparr>,
            \<lparr>dtype3 = Int32, shape3 = (2, 2, 2), elems3 = [[[1, 1], [1, 1]], [[1, 0], [0, 0]]]\<rparr>)
   \<and> \<not> active m1 2 2 (0, 1)
   \<and> List.find (active m1 2 2) (tiles_after (tile_rows m1 (2, 2)) (tile_cols m1 (2, 2)) (0, 1))
       = Some (1, 1)
   \<and> at_get \<lparr>dtype = Int32, nrows = 2, ncols = 2, elems = [[1, 0], [0, 1]]\<rparr> 0 1 = 0
   \<and> at_get \<lparr>dtype = Int32, nrows = 2, ncols = 2, elems = [[0, 1], [1, 1]]\<rparr> 0 1 = 1
   \<and> at_get \<lparr>dtype = Int32, nrows = 2, ncols = 2, elems = [[0, 1], [1, 1]]\<rparr> 0 1 = 1
   \<and> active m1 2 2 (0, 0)
   \<and> at_get \<lparr>dtype = Int32, nrows = 2, ncols = 2, elems = [[1, 0], [0, 1]]\<rparr> 0 0 = 1
   \<and> (\<exists>k < length (elems3 \<lparr>dtype3 = Int32, shape3 = (2, 2, 2), elems3 = [[[1, 1], [1, 1]], [[1, 0], [0, 0]]]\<rparr>).
          at_get \<lparr>dtype = Int32, nrows = 2, ncols = 2, elems = [[1, 0], [0, 0]]\<rparr> 0 0 = int k
          \<and> block_at \<lparr>dtype3 = Int32, shape3 = (2, 2, 2), elems3 = [[[1, 1], [1, 1]], [[1, 0], [0, 0]]]\<rparr> k
              = mask_block m1 2 2 (0, 0))"
proof -
  have wf: "well_formed m1 (2, 2)"
    by (simp add: well_formed_def valid_array_def valid_elem_def m1_def)
  have any: "jnp_any m1" by code_simp
  have dt: "dtype m1 = Int32" by (simp add: m1_def)
  have small: "fst (2 :: nat, 2 :: nat) * snd (2 :: nat, 2 :: nat) \<le> threshold"
    by (simp add: threshold_def)
  have few: "tile_rows m1 (2, 2) * tile_cols m1 (2, 2) < 2 ^ 31"
    by (simp add: tile_rows_def tile_cols_def m1_def)
  have lt: "0 < tile_rows m1 (2, 2) \<and> 1 < tile_cols m1 (2, 2)"
    "0 < tile_rows m1 (2, 2) \<and> 0 < tile_cols m1 (2, 2)"
    by (simp_all add: tile_rows_def tile_cols_def m1_def)
  have val: "sparsify_mask m1 (2, 2) =
       Inr (\<lparr>dtype = Int32, nrows = 2, ncols = 2, elems = [[1, 0], [0, 1]]\<rparr>,
            \<lparr>dtype = Int32, nrows = 2, ncols = 2, elems = [[1, 0], [0, 0]]\<rparr>,
            \<lparr>dtype = Int32, nrows = 2, ncols = 2, elems = [[0, 1], [1, 1]]\<rparr>,
            \<lparr>dtype = Int32, nrows = 2, ncols = 2, elems = [[0, 1], [1, 1]]\<rparr>,
            \<lparr>dtype3 = Int32, shape3 = (2, 2, 2), elems3 = [[[1, 1], [1, 1]], [[1, 0], [0, 0]]]\<rparr>)"
    by code_simp
  have n01: "\<not> active m1 2 2 (0, 1)" by code_simp
  have f01: "List.find (active m1 2 2)
       (tiles_after (tile_rows m1 (2, 2)) (tile_cols m1 (2, 2)) (0, 1)) = Some (1, 1)"
    by code_simp
  have a00: "active m1 2 2 (0, 0)" by code_simp
  from coverage_with_sentinel [OF wf any dt small few]
  obtain b pm p_i p_j md where r: "sparsify_mask m1 (2, 2) = Inr (b, pm, p_i, p_j, md)"
    and A: "\<forall>i j. i < tile_rows m1 (2, 2) \<and> j < tile_cols m1 (2, 2) \<longrightarrow>
        (if active m1 (fst (2 :: nat, 2 :: nat)) (snd (2 :: nat, 2 :: nat)) (i, j)
         then at_get b i j = 1 \<and> at_get p_i i j = int i \<and> at_get p_j i j = int j
           \<and> (\<exists>k < length (elems3 md). at_get pm i j = int k
                 \<and> block_at md k = mask_block m1 (fst (2 :: nat, 2 :: nat)) (snd (2 :: nat, 2 :: nat)) (i, j))
         else at_get b i j = 0
           \<and> (case List.find (active m1 (fst (2 :: nat, 2 :: nat)) (snd (2 :: nat, 2 :: nat)))
                      (tiles_after (tile_rows m1 (2, 2)) (tile_cols m1 (2, 2)) (i, j)) of
                 Some c' \<Rightarrow> at_get p_i i j = int (fst c') \<and> at_get p_j i j = int (snd c')
               | None \<Rightarrow> at_get p_i i j = int (tile_rows m1 (2, 2)) - 1
                         \<and> at_get p_j i j = int (tile_cols m1 (2, 2)) - 1))"
    by blast
  have eqs: "b = \<lparr>dtype = Int32, nrows = 2, ncols = 2, elems = [[1, 0], [0, 1]]\<rparr>"
    "pm = \<lparr>dtype = Int32, nrows = 2, ncols = 2, elems = [[1, 0], [0, 0]]\<rparr>"
    "p_i = \<lparr>dtype = Int32, nrows = 2, ncols = 2, elems = [[0, 1], [1, 1]]\<rparr>"
    "p_j = \<lparr>dtype = Int32, nrows = 2, ncols = 2, elems = [[0, 1], [1, 1]]\<rparr>"
    "md = \<lparr>dtype3 = Int32, shape3 = (2, 2, 2), elems3 = [[[1, 1], [1, 1]], [[1, 0], [0, 0]]]\<rparr>"
    using r unfolding val by auto
  note A01 = A [rule_format, of 0 1, OF lt(1), unfolded fst_conv snd_conv if_not_P [OF n01] f01
      option.case eqs]
  note A00 = A [rule_format, of 0 0, OF lt(2), unfolded fst_conv snd_conv if_P [OF a00] eqs]
  have v01: "at_get \<lparr>dtype = Int32, nrows = 2, ncols = 2, elems = [[1, 0], [0, 1]]\<rparr> 0 1 = 0"
    "at_get \<lparr>dtype = Int32, nrows = 2, ncols = 2, elems = [[0, 1], [1, 1]]\<rparr> 0 1 = 1"
    "at_get \<lparr>dtype = Int32, nrows = 2, ncols = 2, elems = [[0, 1], [1, 1]]\<rparr> 0 1 = 1"
    using A01 by simp_all
  have v00: "at_get \<lparr>dtype = Int32, nrows = 2, ncols = 2, elems = [[1, 0], [0, 1]]\<rparr> 0 0 = 1"
    using A00 by simp
  have e00: "(\<exists>k < length (elems3 \<lparr>dtype3 = Int32, shape3 = (2, 2, 2), elems3 = [[[1, 1], [1, 1]], [[1, 0], [0, 0]]]\<rparr>).
          at_get \<lparr>dtype = Int32, nrows = 2, ncols = 2, elems = [[1, 0], [0, 0]]\<rparr> 0 0 = int k
          \<and> block_at \<lparr>dtype3 = Int32, shape3 = (2, 2, 2), elems3 = [[[1, 1], [1, 1]], [[1, 0], [0, 0]]]\<rparr> k
              = mask_block m1 2 2 (0, 0))"
    using A00 by blast
  from wf any dt small few val n01 f01 v01 a00 v00 e00 show ?thesis
    by (intro conjI)
qed

section \<open>Deduplication\<close>

text \<open>
  C3. The claim is that the index stored in \<open>prefetch_mask\<close> at an active tile names a
  block of \<open>mask_data\<close> equal to the block of the tile. The boolean mask \<open>m_bool\<close> has
  three active tiles with three different blocks. The block of tile \<open>(0, 0)\<close> is
  registered last, at index 2; \<open>prefetch_mask\<close> has the element type of the mask, so the
  index is stored as True, that is 1, and block 1 of \<open>mask_data\<close> is the block of tile
  \<open>(0, 1)\<close>, not that of tile \<open>(0, 0)\<close>.
\<close>

theorem content_index_names_other_block:
  "well_formed m_bool (1, 2) \<and> active m_bool 1 2 (0, 0)
   \<and> sparsify_mask m_bool (1, 2) =
       Inr (\<lparr>dtype = Bool, nrows = 1, ncols = 3, elems = [[1, 1, 1]]\<rparr>,
            \<lparr>dtype = Bool, nrows = 1, ncols = 3, elems = [[1, 1, 0]]\<rparr>,
            \<lparr>dtype = Bool, nrows = 1, ncols = 3, elems = [[0, 0, 0]]\<rparr>,
            \<lparr>dtype = Bool, nrows = 1, ncols = 3, elems = [[0, 1, 1]]\<rparr>,
            \<lparr>dtype3 = Bool, shape3 = (3, 1, 2), elems3 = [[[1, 1]], [[0, 1]], [[1, 0]]]\<rparr>)
   \<and> at_get \<lparr>dtype = Bool, nrows = 1, ncols = 3, elems = [[1, 1, 0]]\<rparr> 0 0 = 1
   \<and> block_at \<lparr>dtype3 = Bool, shape3 = (3, 1, 2), elems3 = [[[1, 1]], [[0, 1]], [[1, 0]]]\<rparr> 1
       = \<lparr>dtype = Bool, nrows = 1, ncols = 2, elems = [[0, 1]]\<rparr>
   \<and> mask_block m_bool 1 2 (0, 0) = \<lparr>dtype = Bool, nrows = 1, ncols = 2, elems = [[1, 0]]\<rparr>
   \<and> block_at \<lparr>dtype3 = Bool, shape3 = (3, 1, 2), elems3 = [[[1, 1]], [[0, 1]], [[1, 0]]]\<rparr>
         (nat (at_get \<lparr>dtype = Bool, nrows = 1, ncols = 3, elems = [[1, 1, 0]]\<rparr> 0 0))
       \<noteq> mask_block m_bool 1 2 (0, 0)"
proof -
  have 1: "well_formed m_bool (1, 2)"
    by (simp add: well_formed_def valid_array_def valid_elem_def m_bool_def)
  have 2: "active m_bool 1 2 (0, 0)" by code_simp
  have 3: "sparsify_mask m_bool (1, 2) =
       Inr (\<lparr>dtype = Bool, nrows = 1, ncols = 3, elems = [[1, 1, 1]]\<rparr>,
            \<lparr>dtype = Bool, nrows = 1, ncols = 3, elems = [[1, 1, 0]]\<rparr>,
            \<lparr>dtype = Bool, nrows = 1, ncols = 3, elems = [[0, 0, 0]]\<rparr>,
            \<lparr>dtype = Bool, nrows = 1, ncols = 3, elems = [[0, 1, 1]]\<rparr>,
            \<lparr>dtype3 = Bool, shape3 = (3, 1, 2), elems3 = [[[1, 1]], [[0, 1]], [[1, 0]]]\<rparr>)"
    by code_simp
  have 4: "at_get \<lparr>dtype = Bool, nrows = 1, ncols = 3, elems = [[1, 1, 0]]\<rparr> 0 0 = 1"
    by (simp add: at_get_def)
  have 5: "block_at \<lparr>dtype3 = Bool, shape3 = (3, 1, 2), elems3 = [[[1, 1]], [[0, 1]], [[1, 0]]]\<rparr> 1
       = \<lparr>dtype = Bool, nrows = 1, ncols = 2, elems = [[0, 1]]\<rparr>"
    by (simp add: block_at_def)
  have 6: "mask_block m_bool 1 2 (0, 0) = \<lparr>dtype = Bool, nrows = 1, ncols = 2, elems = [[1, 0]]\<rparr>"
    by code_simp
  have 7: "block_at \<lparr>dtype3 = Bool, shape3 = (3, 1, 2), elems3 = [[[1, 1]], [[0, 1]], [[1, 0]]]\<rparr>
         (nat (at_get \<lparr>dtype = Bool, nrows = 1, ncols = 3, elems = [[1, 1, 0]]\<rparr> 0 0))
       \<noteq> mask_block m_bool 1 2 (0, 0)"
    unfolding 4 6 by (simp add: block_at_def)
  from 1 2 3 4 5 6 7 show ?thesis by (intro conjI)
qed

section \<open>The tiles after the last active tile\<close>

lemma fold_first_entry:
  "List.find (active m bm bn) cs = Some c \<Longrightarrow> mask_types_finder st = [] \<Longrightarrow> mask_data st = []
     \<Longrightarrow> \<exists>bs. mask_data (fold (loop_body m bm bn) cs st) = mask_block m bm bn c # bs"
proof (induction cs arbitrary: st)
  case Nil
  then show ?case by simp
next
  case (Cons x xs)
  show ?case
  proof (cases "active m bm bn x")
    case True
    then have "c = x" using Cons.prems(1) by simp
    have "mask_data (loop_body m bm bn x st) = [mask_block m bm bn x]"
      using True Cons.prems(2,3) by (simp add: loop_body_lists)
    moreover obtain bs where "mask_data (fold (loop_body m bm bn) xs (loop_body m bm bn x st))
        = mask_data (loop_body m bm bn x st) @ bs"
      using fold_lists_grow(2) [of m bm bn xs "loop_body m bm bn x st"] by blast
    ultimately show ?thesis using \<open>c = x\<close> by simp
  next
    case False
    then have "List.find (active m bm bn) xs = Some c" using Cons.prems(1) by simp
    moreover have "mask_types_finder (loop_body m bm bn x st) = []"
      "mask_data (loop_body m bm bn x st) = []"
      using False Cons.prems(2,3) by (simp_all add: loop_body_lists)
    ultimately show ?thesis using Cons.IH [of "loop_body m bm bn x st"] by simp
  qed
qed

text \<open>When the function returns on a well-formed mask, the mask has an active tile, and
  block 0 of \<open>mask_data\<close> is the block of the last active tile in forward order, the first
  that the loops meet.\<close>

lemma md_first:
  assumes wf: "well_formed m (bm, bn)"
    and ret: "sparsify_mask m (bm, bn) = Inr (b, pm, p_i, p_j, md)"
  shows "\<exists>c. List.find (active m bm bn) (rev (tiles (nrows m div bm) (ncols m div bn))) = Some c
             \<and> 0 < length (elems3 md) \<and> block_at md 0 = mask_block m bm bn c"
proof -
  let ?R = "nrows m div bm" and ?C = "ncols m div bn"
  define st0 where "st0 = init_state (dtype m) ?R ?C"
  define F where "F = fold (loop_body m bm bn) (rev (tiles ?R ?C)) st0"
  have loops: "loops m bm bn st0 = F"
    unfolding F_def st0_def by (rule well_formed_pass [OF wf])
  have stk: "stack (mask_data F) = Inr md"
    using sparsify_mask_Inr [OF ret] unfolding loops [unfolded st0_def] by simp
  have empty: "mask_types_finder st0 = []" "mask_data st0 = []"
    by (simp_all add: st0_def init_state_fields)
  have ne: "mask_data F \<noteq> []"
    using stk by (auto simp: stack_def)
  have "List.find (active m bm bn) (rev (tiles ?R ?C)) \<noteq> None"
  proof
    assume "List.find (active m bm bn) (rev (tiles ?R ?C)) = None"
    then have "\<forall>c \<in> set (rev (tiles ?R ?C)). \<not> active m bm bn c"
      by (auto simp: find_None_iff)
    from fold_mask_data_inactive [OF this, of st0] have "mask_data F = []"
      by (simp add: F_def empty)
    with ne show False ..
  qed
  then obtain c where c: "List.find (active m bm bn) (rev (tiles ?R ?C)) = Some c"
    by blast
  from fold_first_entry [OF c empty] obtain bs where bs: "mask_data F = mask_block m bm bn c # bs"
    unfolding F_def by blast
  have blocks: "\<exists>c \<in> set (rev (tiles ?R ?C)). active m bm bn c \<and> x = mask_block m bm bn c"
    if "x \<in> set (mask_data F)" for x
    using fold_data_blocks [OF that [unfolded F_def]] by (auto simp: empty)
  have dts: "\<forall>x \<in> set (mask_data F). dtype x = dtype m"
  proof
    fix x assume "x \<in> set (mask_data F)"
    from blocks [OF this] show "dtype x = dtype m"
      by (auto simp: dtype_mask_block)
  qed
  have len: "length (elems3 md) = length (mask_data F)"
    by (rule stack_blocks(1) [OF stk dts])
  have k: "0 < length (mask_data F)" by (simp add: bs)
  have "block_at md 0 = mask_data F ! 0"
    by (rule stack_blocks(2) [OF stk dts k])
  then have "block_at md 0 = mask_block m bm bn c" by (simp add: bs)
  with c len k show ?thesis by simp
qed

text \<open>
  C9. At a tile of the grid that no active tile follows, itself inactive, the function
  stores the values that the variables have before the loops: \<open>block_mask\<close> is 0,
  \<open>prefetch_mask\<close> is 0, and block 0 of \<open>mask_data\<close> is the block of the last active tile
  in forward order. \<open>prefetch_i\<close> and \<open>prefetch_j\<close> receive the last coordinates of the grid
  converted to the element type of the mask: for a mask of integers they hold those
  coordinates, as the claim says; for a boolean mask they hold 1 as soon as the
  coordinate is 1 or more, so with three tile rows or more the stored row is not the last
  row of the grid.
\<close>

theorem trailing_tiles_store_converted_sentinel:
  assumes "well_formed m block_shape"
    and "sparsify_mask m block_shape = Inr (b, pm, p_i, p_j, md)"
    and "i < tile_rows m block_shape" and "j < tile_cols m block_shape"
    and "next_tile m block_shape (i, j) = None"
  shows "at_get b i j = 0 \<and> at_get pm i j = 0
     \<and> (\<exists>c. List.find (active m (fst block_shape) (snd block_shape))
                (rev (tiles (tile_rows m block_shape) (tile_cols m block_shape))) = Some c
            \<and> 0 < length (elems3 md)
            \<and> block_at md 0 = mask_block m (fst block_shape) (snd block_shape) c)
     \<and> at_get p_i i j = (case dtype m of
           Int32 \<Rightarrow> int (tile_rows m block_shape) - 1
         | Bool \<Rightarrow> if tile_rows m block_shape = 1 then 0 else 1)
     \<and> at_get p_j i j = (case dtype m of
           Int32 \<Rightarrow> int (tile_cols m block_shape) - 1
         | Bool \<Rightarrow> if tile_cols m block_shape = 1 then 0 else 1)"
proof -
  obtain bm bn where bs: "block_shape = (bm, bn)" by (cases block_shape)
  let ?R = "nrows m div bm" and ?C = "ncols m div bn"
  note wf = assms(1) [unfolded bs] and ret = assms(2) [unfolded bs]
  have ij: "i < ?R" "j < ?C"
    using assms(3,4) by (simp_all add: bs tile_rows_def tile_cols_def)
  define nxt where "nxt = List.find (active m bm bn) ((i, j) # tiles_after ?R ?C (i, j))"
  have nx: "nxt = None"
    using assms(5) by (simp add: bs next_tile_def nxt_def tile_rows_def tile_cols_def del: find.simps)
  then have inactive: "\<not> active m bm bn (i, j)"
    by (auto simp: nxt_def split: if_splits)
  note tv = tile_values [OF wf ret ij, folded nxt_def]
  have 1: "at_get b i j = 0" using tv(1) inactive by simp
  have 2: "at_get pm i j = 0" by (rule tv(4) [OF nx])
  have pos: "0 < ?R" "0 < ?C" using ij by simp_all
  have 3: "at_get p_i i j = (case dtype m of Int32 \<Rightarrow> int ?R - 1 | Bool \<Rightarrow> if ?R = 1 then 0 else 1)"
    using tv(2) pos(1) unfolding nx
    by (cases "dtype m") (simp_all add: astype_Int32 astype_Bool_sentinel)
  have 4: "at_get p_j i j = (case dtype m of Int32 \<Rightarrow> int ?C - 1 | Bool \<Rightarrow> if ?C = 1 then 0 else 1)"
    using tv(3) pos(2) unfolding nx
    by (cases "dtype m") (simp_all add: astype_Int32 astype_Bool_sentinel)
  show ?thesis
    unfolding bs tile_rows_def tile_cols_def fst_conv snd_conv
    using 1 2 3 4 md_first [OF wf ret] by (intro conjI)
qed


theorem trailing_tiles_store_converted_sentinel_witness:
  "well_formed m_col (1, 1) \<and> dtype m_col = Bool
   \<and> sparsify_mask m_col (1, 1) =
       Inr (\<lparr>dtype = Bool, nrows = 3, ncols = 1, elems = [[1], [0], [0]]\<rparr>,
            \<lparr>dtype = Bool, nrows = 3, ncols = 1, elems = [[0], [0], [0]]\<rparr>,
            \<lparr>dtype = Bool, nrows = 3, ncols = 1, elems = [[0], [1], [1]]\<rparr>,
            \<lparr>dtype = Bool, nrows = 3, ncols = 1, elems = [[0], [0], [0]]\<rparr>,
            \<lparr>dtype3 = Bool, shape3 = (1, 1, 1), elems3 = [[[1]]]\<rparr>)
   \<and> 2 < tile_rows m_col (1, 1) \<and> 0 < tile_cols m_col (1, 1)
   \<and> next_tile m_col (1, 1) (2, 0) = None
   \<and> int (tile_rows m_col (1, 1)) - 1 = 2
   \<and> at_get \<lparr>dtype = Bool, nrows = 3, ncols = 1, elems = [[0], [1], [1]]\<rparr> 2 0 = 1
   \<and> at_get \<lparr>dtype = Bool, nrows = 3, ncols = 1, elems = [[1], [0], [0]]\<rparr> 2 0 = 0
   \<and> at_get \<lparr>dtype = Bool, nrows = 3, ncols = 1, elems = [[0], [0], [0]]\<rparr> 2 0 = 0"
proof -
  have wf: "well_formed m_col (1, 1)"
    by (simp add: well_formed_def valid_array_def valid_elem_def m_col_def)
  have dt: "dtype m_col = Bool" by (simp add: m_col_def)
  have val: "sparsify_mask m_col (1, 1) =
       Inr (\<lparr>dtype = Bool, nrows = 3, ncols = 1, elems = [[1], [0], [0]]\<rparr>,
            \<lparr>dtype = Bool, nrows = 3, ncols = 1, elems = [[0], [0], [0]]\<rparr>,
            \<lparr>dtype = Bool, nrows = 3, ncols = 1, elems = [[0], [1], [1]]\<rparr>,
            \<lparr>dtype = Bool, nrows = 3, ncols = 1, elems = [[0], [0], [0]]\<rparr>,
            \<lparr>dtype3 = Bool, shape3 = (1, 1, 1), elems3 = [[[1]]]\<rparr>)"
    by code_simp
  have tr: "tile_rows m_col (1, 1) = 3" and tc: "tile_cols m_col (1, 1) = 1"
    by (simp_all add: tile_rows_def tile_cols_def m_col_def)
  have lt: "2 < tile_rows m_col (1, 1)" "0 < tile_cols m_col (1, 1)"
    unfolding tr tc by simp_all
  have nt: "next_tile m_col (1, 1) (2, 0) = None" by code_simp
  have sentinel: "int (tile_rows m_col (1, 1)) - 1 = 2" unfolding tr by simp
  note T = trailing_tiles_store_converted_sentinel [OF wf val lt nt]
  have v: "at_get \<lparr>dtype = Bool, nrows = 3, ncols = 1, elems = [[1], [0], [0]]\<rparr> 2 0 = 0"
    "at_get \<lparr>dtype = Bool, nrows = 3, ncols = 1, elems = [[0], [0], [0]]\<rparr> 2 0 = 0"
    using T by blast+
  have "at_get \<lparr>dtype = Bool, nrows = 3, ncols = 1, elems = [[0], [1], [1]]\<rparr> 2 0 =
      (case dtype m_col of Int32 \<Rightarrow> int (tile_rows m_col (1, 1)) - 1
       | Bool \<Rightarrow> if tile_rows m_col (1, 1) = 1 then 0 else 1)"
    using T by blast
  then have p: "at_get \<lparr>dtype = Bool, nrows = 3, ncols = 1, elems = [[0], [1], [1]]\<rparr> 2 0 = 1"
    unfolding dt tr by simp
  from wf dt val lt nt sentinel p v show ?thesis by (intro conjI)
qed

end
